theory Spec2Isabelle
  imports Main "HOL-Library.Word" "HOL-Library.Sublist"
begin

unbundle bit_operations_syntax

section \<open>The adaptive radix tree of package adaptive\<close>

subsection \<open>Bytes, slices and panics\<close>

type_synonym byte = "8 word"

text \<open>
  A run-time panic of the Go code is a value of this type. \<open>InvalidAddress\<close> is
  not a Go panic: it stands for an address outside the modelled heap, or an address
  whose node is not of the variant that the static type of the Go pointer promises.
\<close>

datatype error =
    IndexOutOfRange
  | SliceBoundsOutOfRange
  | UnknownNodeType
  | InvalidAddress

text \<open>
  The builtin \<^verbatim>\<open>copy(dst, src)\<close> overwrites the first
  \<^verbatim>\<open>min(len(dst), len(src))\<close> elements of \<^verbatim>\<open>dst\<close>; the source is
  read before the destination is written (the two may overlap).
\<close>

definition copy_go :: "'a list \<Rightarrow> 'a list \<Rightarrow> 'a list" where
  "copy_go dst src = take (min (length dst) (length src)) src @ drop (min (length dst) (length src)) dst"

subsection \<open>The key codec\<close>

definition getTreeKey :: "byte list \<Rightarrow> byte list" where
  "getTreeKey key =
     (let keyLen = length key + 1;
          newKey = replicate keyLen (0::byte);
          newKey = copy_go newKey key
      in newKey[keyLen - 1 := 0x24])"

subsection \<open>Nodes\<close>

text \<open>
  A value of Go type \<^verbatim>\<open>*Node[T]\<close> is either nil or the address of a node; the
  box that holds the interface value is identified with the node it refers to. The
  nodes live in a heap, a list indexed by address, which only grows.
\<close>

type_synonym addr = nat
type_synonym ptr = "addr option"

text \<open>
  Modelled from the spec: the struct declarations of the node variants, the constant
  \<^verbatim>\<open>maxPrefixLen\<close> and the accessor methods of the \<^verbatim>\<open>Node\<close> interface are not
  among the sources. The common header of the data model (prefix bytes, logical prefix
  length, child count) is the record below; the widths are those of the fields the
  source does show (\<^verbatim>\<open>keyLen\<close> is stored as \<^verbatim>\<open>uint32\<close>, the Node48 index and the
  key bytes are bytes): a 32-bit prefix length and an 8-bit child count.
  \<^verbatim>\<open>maxPrefixLen\<close> is the parameter \<open>M\<close> of every function that uses it. The
  fixed-size arrays (\<^verbatim>\<open>keys\<close> of 4, 16 and 256 bytes, \<^verbatim>\<open>children\<close> of 4, 16, 48
  and 256 pointers) are lists of that length.
\<close>

record header =
  partialLen :: "32 word"
  numChildren :: "8 word"
  partial :: "byte list"

datatype 'v node =
    NodeLeaf "byte list" "32 word" 'v
  | Node4 header "byte list" "ptr list"
  | Node16 header "byte list" "ptr list"
  | Node48 header "byte list" "ptr list"
  | Node256 header "ptr list"

datatype nodeType = leafType | node4 | node16 | node48 | node256

fun getArtNodeType :: "'v node \<Rightarrow> nodeType" where
  "getArtNodeType (NodeLeaf k kl v) = leafType"
| "getArtNodeType (Node4 hdr ks cs) = node4"
| "getArtNodeType (Node16 hdr ks cs) = node16"
| "getArtNodeType (Node48 hdr ks cs) = node48"
| "getArtNodeType (Node256 hdr cs) = node256"

definition isLeaf :: "'v node \<Rightarrow> bool" where
  "isLeaf n = (getArtNodeType n = leafType)"

text \<open>
  Modelled from the spec: the header accessors. On the four internal variants they read
  and write the header; a leaf has no header in this model (no modelled function reads
  or writes a leaf's header on the inputs considered), reads give the empty header and
  writes do nothing.
\<close>

fun getHeader :: "'v node \<Rightarrow> header" where
  "getHeader (NodeLeaf k kl v) = \<lparr>partialLen = 0, numChildren = 0, partial = []\<rparr>"
| "getHeader (Node4 hdr ks cs) = hdr"
| "getHeader (Node16 hdr ks cs) = hdr"
| "getHeader (Node48 hdr ks cs) = hdr"
| "getHeader (Node256 hdr cs) = hdr"

fun setHeader :: "'v node \<Rightarrow> header \<Rightarrow> 'v node" where
  "setHeader (NodeLeaf k kl v) hdr = NodeLeaf k kl v"
| "setHeader (Node4 hdr0 ks cs) hdr = Node4 hdr ks cs"
| "setHeader (Node16 hdr0 ks cs) hdr = Node16 hdr ks cs"
| "setHeader (Node48 hdr0 ks cs) hdr = Node48 hdr ks cs"
| "setHeader (Node256 hdr0 cs) hdr = Node256 hdr cs"

definition getPartialLen :: "'v node \<Rightarrow> 32 word" where
  "getPartialLen n = partialLen (getHeader n)"

definition getNumChildren :: "'v node \<Rightarrow> 8 word" where
  "getNumChildren n = numChildren (getHeader n)"

definition getPartial :: "'v node \<Rightarrow> byte list" where
  "getPartial n = partial (getHeader n)"

definition setPartialLen :: "'v node \<Rightarrow> 32 word \<Rightarrow> 'v node" where
  "setPartialLen n l = setHeader n ((getHeader n)\<lparr>partialLen := l\<rparr>)"

definition setNumChildren :: "'v node \<Rightarrow> 8 word \<Rightarrow> 'v node" where
  "setNumChildren n c = setHeader n ((getHeader n)\<lparr>numChildren := c\<rparr>)"

definition setPartial :: "'v node \<Rightarrow> byte list \<Rightarrow> 'v node" where
  "setPartial n p = setHeader n ((getHeader n)\<lparr>partial := p\<rparr>)"

text \<open>The variant-specific storage: the \<^verbatim>\<open>keys\<close> and \<^verbatim>\<open>children\<close> arrays.\<close>

fun getKeys :: "'v node \<Rightarrow> byte list" where
  "getKeys (NodeLeaf k kl v) = []"
| "getKeys (Node4 hdr ks cs) = ks"
| "getKeys (Node16 hdr ks cs) = ks"
| "getKeys (Node48 hdr ks cs) = ks"
| "getKeys (Node256 hdr cs) = []"

fun getChildren :: "'v node \<Rightarrow> ptr list" where
  "getChildren (NodeLeaf k kl v) = []"
| "getChildren (Node4 hdr ks cs) = cs"
| "getChildren (Node16 hdr ks cs) = cs"
| "getChildren (Node48 hdr ks cs) = cs"
| "getChildren (Node256 hdr cs) = cs"

fun setKeys :: "'v node \<Rightarrow> byte list \<Rightarrow> 'v node" where
  "setKeys (NodeLeaf k kl v) ks = NodeLeaf k kl v"
| "setKeys (Node4 hdr ks0 cs) ks = Node4 hdr ks cs"
| "setKeys (Node16 hdr ks0 cs) ks = Node16 hdr ks cs"
| "setKeys (Node48 hdr ks0 cs) ks = Node48 hdr ks cs"
| "setKeys (Node256 hdr cs) ks = Node256 hdr cs"

fun setChildren :: "'v node \<Rightarrow> ptr list \<Rightarrow> 'v node" where
  "setChildren (NodeLeaf k kl v) cs = NodeLeaf k kl v"
| "setChildren (Node4 hdr ks cs0) cs = Node4 hdr ks cs"
| "setChildren (Node16 hdr ks cs0) cs = Node16 hdr ks cs"
| "setChildren (Node48 hdr ks cs0) cs = Node48 hdr ks cs"
| "setChildren (Node256 hdr cs0) cs = Node256 hdr cs"

subsection \<open>Allocation and the header copy\<close>

text \<open>
  \<^verbatim>\<open>allocNode\<close> returns a fresh node with a zero-filled prefix buffer of
  \<^verbatim>\<open>maxPrefixLen\<close> bytes and \<^verbatim>\<open>partialLen = maxPrefixLen\<close>; Go zero-fills the
  arrays. The leaf case (used by \<^verbatim>\<open>makeLeaf\<close> only) is not modelled.
\<close>

definition newHeader :: "nat \<Rightarrow> header" where
  "newHeader M = \<lparr>partialLen = of_nat M, numChildren = 0, partial = replicate M 0\<rparr>"

fun newNode :: "nat \<Rightarrow> nodeType \<Rightarrow> 'v node" where
  "newNode M node4 = Node4 (newHeader M) (replicate 4 0) (replicate 4 None)"
| "newNode M node16 = Node16 (newHeader M) (replicate 16 0) (replicate 16 None)"
| "newNode M node48 = Node48 (newHeader M) (replicate 256 0) (replicate 48 None)"
| "newNode M node256 = Node256 (newHeader M) (replicate 256 None)"

type_synonym 'v heap = "'v node list"

definition allocNode :: "nat \<Rightarrow> nodeType \<Rightarrow> 'v heap \<Rightarrow> 'v heap \<times> addr" where
  "allocNode M ntype h = (h @ [newNode M ntype], length h)"

text \<open>
  \<^verbatim>\<open>copyHeader(dest, src)\<close> returns the updated \<^verbatim>\<open>dest\<close>. The slice expressions
  \<^verbatim>\<open>src.getPartial()[:length]\<close> and \<^verbatim>\<open>dest.getPartial()[:length]\<close> panic when a
  buffer is shorter than \<^verbatim>\<open>length\<close>.
\<close>

definition copyHeader :: "nat \<Rightarrow> 'v node \<Rightarrow> 'v node \<Rightarrow> error + 'v node" where
  "copyHeader M dest src =
     (let dest = setNumChildren dest (getNumChildren src);
          dest = setPartialLen dest (getPartialLen src);
          len = min M (unat (getPartialLen src))
      in if length (getPartial src) < len then Inl SliceBoundsOutOfRange
         else if length (getPartial dest) < len then Inl SliceBoundsOutOfRange
         else let partialToCopy = take len (getPartial src)
              in Inr (setPartial dest
                        (copy_go (take len (getPartial dest)) partialToCopy
                           @ drop len (getPartial dest))))"

definition deref :: "'v heap \<Rightarrow> addr \<Rightarrow> 'v node option" where
  "deref h a = (if a < length h then Some (h ! a) else None)"

subsection \<open>Minimum and maximum\<close>

text \<open>
  The scan of \<^verbatim>\<open>minimum\<close> over the Node48 index,
  \<^verbatim>\<open>for idx < 256 && node.keys[idx] == 0 { idx++ }\<close>, and over the Node256 slots.
\<close>

function minimum_scan48 :: "byte list \<Rightarrow> nat \<Rightarrow> nat" where
  "minimum_scan48 keys idx =
     (if idx < 256 \<and> keys ! idx = 0 then minimum_scan48 keys (idx + 1) else idx)"
  by pat_completeness auto
termination
  by (relation "measure (\<lambda>(keys, idx). 256 - idx)") auto

declare minimum_scan48.simps [simp del]

function minimum_scan256 :: "ptr list \<Rightarrow> nat \<Rightarrow> nat" where
  "minimum_scan256 children idx =
     (if idx < 256 \<and> children ! idx = None then minimum_scan256 children (idx + 1) else idx)"
  by pat_completeness auto
termination
  by (relation "measure (\<lambda>(children, idx). 256 - idx)") auto

declare minimum_scan256.simps [simp del]

text \<open>
  The Node48 case of \<^verbatim>\<open>minimum\<close> up to the recursive call: after the scan,
  \<^verbatim>\<open>idx = int(node.keys[idx] - 1)\<close> reads the 256-entry index at the position where
  the scan stopped, which is out of range when the scan ran to 256.
\<close>

definition minimum_slot48 :: "byte list \<Rightarrow> error + nat" where
  "minimum_slot48 keys =
     (let idx = minimum_scan48 keys 0
      in if length keys \<le> idx then Inl IndexOutOfRange
         else Inr (unat (keys ! idx - 1)))"

text \<open>
  \<^verbatim>\<open>minimum\<close> returns nil or the address of a leaf. The recursion follows child
  pointers through the heap; \<open>None\<close> is the call that does not return.
\<close>

partial_function (option) minimum :: "'v heap \<Rightarrow> ptr \<Rightarrow> (error + ptr) option" where
  "minimum h n =
     (case n of
        None \<Rightarrow> Some (Inr None)
      | Some a \<Rightarrow>
         (case deref h a of
            None \<Rightarrow> Some (Inl InvalidAddress)
          | Some node \<Rightarrow>
             (case node of
                NodeLeaf k kl v \<Rightarrow> Some (Inr (Some a))
              | Node4 hdr keys children \<Rightarrow> minimum h (children ! 0)
              | Node16 hdr keys children \<Rightarrow> minimum h (children ! 0)
              | Node48 hdr keys children \<Rightarrow>
                 (case minimum_slot48 keys of
                    Inl e \<Rightarrow> Some (Inl e)
                  | Inr idx \<Rightarrow>
                     if idx < 48 then minimum h (children ! idx) else Some (Inr None))
              | Node256 hdr children \<Rightarrow>
                 (let idx = minimum_scan256 children 0
                  in if idx < 256 then minimum h (children ! idx) else Some (Inr None)))))"

text \<open>
  The scan of \<^verbatim>\<open>maximum\<close>,
  \<^verbatim>\<open>idx = 255; for idx >= 0 && node.children[idx] == nil { idx-- }\<close>, which the source
  runs over \<^verbatim>\<open>children\<close> for Node48 and for Node256 alike; reading
  \<^verbatim>\<open>children[idx]\<close> beyond the array panics.
\<close>

function maximum_scan :: "ptr list \<Rightarrow> int \<Rightarrow> error + int" where
  "maximum_scan children idx =
     (if 0 \<le> idx then
        (if length children \<le> nat idx then Inl IndexOutOfRange
         else if children ! nat idx = None then maximum_scan children (idx - 1)
         else Inr idx)
      else Inr idx)"
  by pat_completeness auto
termination
  by (relation "measure (\<lambda>(children, idx). nat (idx + 1))") auto

declare maximum_scan.simps [simp del]

text \<open>
  The index \<^verbatim>\<open>node.getNumChildren()-1\<close> of the Node4 and Node16 cases is computed
  in the 8-bit type of \<^verbatim>\<open>numChildren\<close>.
\<close>

partial_function (option) maximum :: "'v heap \<Rightarrow> ptr \<Rightarrow> (error + ptr) option" where
  "maximum h n =
     (case n of
        None \<Rightarrow> Some (Inr None)
      | Some a \<Rightarrow>
         (case deref h a of
            None \<Rightarrow> Some (Inl InvalidAddress)
          | Some node \<Rightarrow>
             (case node of
                NodeLeaf k kl v \<Rightarrow> Some (Inr (Some a))
              | Node4 hdr keys children \<Rightarrow>
                 (if length children \<le> unat (numChildren hdr - 1) then Some (Inl IndexOutOfRange)
                  else maximum h (children ! unat (numChildren hdr - 1)))
              | Node16 hdr keys children \<Rightarrow>
                 (if length children \<le> unat (numChildren hdr - 1) then Some (Inl IndexOutOfRange)
                  else maximum h (children ! unat (numChildren hdr - 1)))
              | Node48 hdr keys children \<Rightarrow>
                 (case maximum_scan children 255 of
                    Inl e \<Rightarrow> Some (Inl e)
                  | Inr idx \<Rightarrow>
                     if 0 \<le> idx then maximum h (children ! nat idx) else Some (Inr None))
              | Node256 hdr children \<Rightarrow>
                 (case maximum_scan children 255 of
                    Inl e \<Rightarrow> Some (Inl e)
                  | Inr idx \<Rightarrow>
                     if 0 \<le> idx then maximum h (children ! nat idx) else Some (Inr None)))))"

subsection \<open>Prefix comparison\<close>

text \<open>
  The comparison loop of \<^verbatim>\<open>checkPrefix\<close> and the two loops of
  \<^verbatim>\<open>prefixMismatch\<close>:
  \<^verbatim>\<open>for ; idx < maxCmp; idx++ { if xs[xoff+idx] != key[depth+idx] { return idx } }\<close>.
  The loop either returns from the function at a mismatch or runs out and leaves
  \<^verbatim>\<open>idx\<close> to the code behind it. Lengths, offsets and indices are never negative and
  are naturals here; where Go's \<^verbatim>\<open>maxCmp\<close> would be negative the truncated
  difference is 0 and the loop does not run in either.
\<close>

datatype loop_exit = Return nat | Fallthrough nat

fun exit_idx :: "loop_exit \<Rightarrow> nat" where
  "exit_idx (Return idx) = idx"
| "exit_idx (Fallthrough idx) = idx"

function prefix_loop ::
    "byte list \<Rightarrow> nat \<Rightarrow> byte list \<Rightarrow> nat \<Rightarrow> nat \<Rightarrow> nat \<Rightarrow> error + loop_exit" where
  "prefix_loop xs xoff key depth maxCmp idx =
     (if idx < maxCmp then
        (if length xs \<le> xoff + idx then Inl IndexOutOfRange
         else if length key \<le> depth + idx then Inl IndexOutOfRange
         else if xs ! (xoff + idx) \<noteq> key ! (depth + idx) then Inr (Return idx)
         else prefix_loop xs xoff key depth maxCmp (idx + 1))
      else Inr (Fallthrough idx))"
  by pat_completeness auto
termination
  by (relation "measure (\<lambda>(xs, xoff, key, depth, maxCmp, idx). maxCmp - idx)") auto

declare prefix_loop.simps [simp del]

definition checkPrefix :: "nat \<Rightarrow> 'v node \<Rightarrow> byte list \<Rightarrow> nat \<Rightarrow> nat \<Rightarrow> error + nat" where
  "checkPrefix M n key keyLen depth =
     (let maxCmp = min (min (unat (getPartialLen n)) M) (keyLen - depth)
      in case prefix_loop (getPartial n) 0 key depth maxCmp 0 of
           Inl e \<Rightarrow> Inl e
         | Inr ex \<Rightarrow> Inr (exit_idx ex))"

text \<open>
  \<^verbatim>\<open>prefixMismatch\<close> takes the address of the node, since it passes the node on to
  \<^verbatim>\<open>minimum\<close>. The leaf's \<^verbatim>\<open>keyLen\<close> is the stored 32-bit field.
\<close>

definition prefixMismatch ::
    "nat \<Rightarrow> 'v heap \<Rightarrow> addr \<Rightarrow> byte list \<Rightarrow> nat \<Rightarrow> nat \<Rightarrow> (error + nat) option" where
  "prefixMismatch M h a key keyLen depth =
     (case deref h a of
        None \<Rightarrow> Some (Inl InvalidAddress)
      | Some n \<Rightarrow>
         (let maxCmp = min (min M (unat (getPartialLen n))) (keyLen - depth)
          in case prefix_loop (getPartial n) 0 key depth maxCmp 0 of
               Inl e \<Rightarrow> Some (Inl e)
             | Inr (Return idx) \<Rightarrow> Some (Inr idx)
             | Inr (Fallthrough idx) \<Rightarrow>
                if M < unat (getPartialLen n) then
                  (case minimum h (Some a) of
                     None \<Rightarrow> None
                   | Some (Inl e) \<Rightarrow> Some (Inl e)
                   | Some (Inr None) \<Rightarrow> Some (Inr idx)
                   | Some (Inr (Some la)) \<Rightarrow>
                      (case deref h la of
                         Some (NodeLeaf lkey lkeyLen v) \<Rightarrow>
                           (let maxCmp = min (unat lkeyLen) keyLen - depth
                            in case prefix_loop lkey depth key depth maxCmp idx of
                                 Inl e \<Rightarrow> Some (Inl e)
                               | Inr ex \<Rightarrow> Some (Inr (exit_idx ex)))
                       | _ \<Rightarrow> Some (Inl InvalidAddress)))
                else Some (Inr idx)))"

subsection \<open>Child lookup\<close>

text \<open>
  \<^verbatim>\<open>findChild\<close> returns the address of a slot of the node's \<^verbatim>\<open>children\<close> array,
  or nil; the model returns the index of that slot.
\<close>

function findChild4_loop :: "byte list \<Rightarrow> byte \<Rightarrow> nat \<Rightarrow> nat \<Rightarrow> error + nat option" where
  "findChild4_loop keys c nc i =
     (if i < nc then
        (if length keys \<le> i then Inl IndexOutOfRange
         else if keys ! i = c then Inr (Some i)
         else findChild4_loop keys c nc (i + 1))
      else Inr None)"
  by pat_completeness auto
termination
  by (relation "measure (\<lambda>(keys, c, nc, i). nc - i)") auto

declare findChild4_loop.simps [simp del]

definition TrailingZeros16 :: "16 word \<Rightarrow> nat" where
  "TrailingZeros16 x = length (takeWhile (\<lambda>i. \<not> bit x i) [0..<16])"

definition TrailingZeros32 :: "32 word \<Rightarrow> nat" where
  "TrailingZeros32 x = length (takeWhile (\<lambda>i. \<not> bit x i) [0..<32])"

text \<open>
  The Node16 case compares all 16 keys and masks the result; \<^verbatim>\<open>mask\<close> has Go type
  \<^verbatim>\<open>int\<close> (64 bits) and is truncated to 16 bits.
\<close>

definition findChild16_bitfield :: "byte list \<Rightarrow> byte \<Rightarrow> 16 word" where
  "findChild16_bitfield keys c =
     fold (\<lambda>i bitfield. if keys ! i = c then bitfield OR push_bit i 1 else bitfield) [0..<16] 0"

definition findChild :: "'v node \<Rightarrow> byte \<Rightarrow> error + nat option" where
  "findChild n c =
     (case n of
        Node4 hdr keys children \<Rightarrow> findChild4_loop keys c (unat (numChildren hdr)) 0
      | Node16 hdr keys children \<Rightarrow>
          (let bitfield = findChild16_bitfield keys c;
               mask = push_bit (unat (numChildren hdr)) (1 :: 64 word) - 1;
               bitfield = bitfield AND ucast mask
           in if bitfield \<noteq> 0 then Inr (Some (TrailingZeros16 bitfield)) else Inr None)
      | Node48 hdr keys children \<Rightarrow>
          (let i = keys ! unat c
           in if i \<noteq> 0 then
                (if length children \<le> unat (i - 1) then Inl IndexOutOfRange
                 else Inr (Some (unat (i - 1))))
              else Inr None)
      | Node256 hdr children \<Rightarrow>
          (if children ! unat c \<noteq> None then Inr (Some (unat c)) else Inr None)
      | NodeLeaf k kl v \<Rightarrow> Inr None)"

subsection \<open>Adding a child\<close>

text \<open>
  The operations mutate the node \<^verbatim>\<open>n\<close> in place and may assign to \<^verbatim>\<open>*ref\<close>,
  the slot of the caller that holds \<^verbatim>\<open>n\<close>. The state is the heap together with the
  contents of that slot. The local variables \<^verbatim>\<open>node4\<close>, \<^verbatim>\<open>node16\<close>,
  \<^verbatim>\<open>node48\<close> and \<^verbatim>\<open>node256\<close> of the source, which shadow the type tags, are
  \<open>new4\<close>, \<open>new16\<close>, \<open>new48\<close> and \<open>new256\<close> here.
\<close>

record 'v store =
  nodes :: "'v heap"
  ref :: ptr

definition put :: "'v store \<Rightarrow> addr \<Rightarrow> 'v node \<Rightarrow> 'v store" where
  "put st a n = st\<lparr>nodes := (nodes st)[a := n]\<rparr>"

definition addChild256 :: "'v store \<Rightarrow> addr \<Rightarrow> byte \<Rightarrow> addr \<Rightarrow> error + 'v store" where
  "addChild256 st n c child =
     (case deref (nodes st) n of
        Some (Node256 hdr children) \<Rightarrow>
          (let hdr = hdr\<lparr>numChildren := numChildren hdr + 1\<rparr>;
               children = children[unat c := Some child]
           in Inr (put st n (Node256 hdr children)))
      | _ \<Rightarrow> Inl InvalidAddress)"

text \<open>\<^verbatim>\<open>pos := 0; for n.children[pos] != nil { pos++ }\<close>\<close>

function addChild48_pos :: "ptr list \<Rightarrow> nat \<Rightarrow> error + nat" where
  "addChild48_pos children pos =
     (if length children \<le> pos then Inl IndexOutOfRange
      else if children ! pos \<noteq> None then addChild48_pos children (pos + 1)
      else Inr pos)"
  by pat_completeness auto
termination
  by (relation "measure (\<lambda>(children, pos). length children - pos)") auto

declare addChild48_pos.simps [simp del]

text \<open>
  \<^verbatim>\<open>for i := 0; i < 256; i++ { if n.keys[i] != 0 {
     node256.children[i] = n.children[int(n.keys[i])-1] } }\<close>
\<close>

function addChild48_grow :: "byte list \<Rightarrow> ptr list \<Rightarrow> ptr list \<Rightarrow> nat \<Rightarrow> error + ptr list" where
  "addChild48_grow keys children children256 i =
     (if i < 256 then
        (if keys ! i \<noteq> 0 then
           (if length children \<le> unat (keys ! i) - 1 then Inl IndexOutOfRange
            else addChild48_grow keys children
                   (children256[i := children ! (unat (keys ! i) - 1)]) (i + 1))
         else addChild48_grow keys children children256 (i + 1))
      else Inr children256)"
  by pat_completeness auto
termination
  by (relation "measure (\<lambda>(keys, children, children256, i). 256 - i)") auto

declare addChild48_grow.simps [simp del]

definition addChild48 :: "nat \<Rightarrow> 'v store \<Rightarrow> addr \<Rightarrow> byte \<Rightarrow> addr \<Rightarrow> error + 'v store" where
  "addChild48 M st n c child =
     (case deref (nodes st) n of
        Some (Node48 hdr keys children) \<Rightarrow>
          if numChildren hdr < 48 then
            (case addChild48_pos children 0 of
               Inl e \<Rightarrow> Inl e
             | Inr pos \<Rightarrow>
                (let children = children[pos := Some child];
                     keys = keys[unat c := of_nat (pos + 1)];
                     hdr = hdr\<lparr>numChildren := numChildren hdr + 1\<rparr>
                 in Inr (put st n (Node48 hdr keys children))))
          else
            (let (h, a) = allocNode M node256 (nodes st);
                 st = st\<lparr>nodes := h, ref := Some a\<rparr>
             in case addChild48_grow keys children (getChildren (h ! a)) 0 of
                  Inl e \<Rightarrow> Inl e
                | Inr children256 \<Rightarrow>
                   (case copyHeader M (setChildren (h ! a) children256) (Node48 hdr keys children) of
                      Inl e \<Rightarrow> Inl e
                    | Inr new256 \<Rightarrow> addChild256 (put st a new256) a c child))
      | _ \<Rightarrow> Inl InvalidAddress)"

text \<open>
  \<^verbatim>\<open>copy(xs[idx+1:], xs[idx:idx+length])\<close>, the shift that makes room at \<^verbatim>\<open>idx\<close>.
  With \<^verbatim>\<open>idx + length\<close> the child count, below the capacity of the array, neither
  slice expression is out of range.
\<close>

definition shift_right :: "'a list \<Rightarrow> nat \<Rightarrow> nat \<Rightarrow> 'a list" where
  "shift_right xs idx len =
     take (idx + 1) xs @ copy_go (drop (idx + 1) xs) (take len (drop idx xs))"

definition addChild16_bitfield :: "byte list \<Rightarrow> byte \<Rightarrow> 32 word" where
  "addChild16_bitfield keys c =
     fold (\<lambda>i bitfield. if c < keys ! i then bitfield OR push_bit i 1 else bitfield) [0..<16] 0"

text \<open>
  \<^verbatim>\<open>for i := 0; i < int(n.numChildren); i++ { node48.keys[n.keys[i]] = byte(i + 1) }\<close>
\<close>

definition addChild16_index :: "byte list \<Rightarrow> nat \<Rightarrow> byte list \<Rightarrow> byte list" where
  "addChild16_index keys nc keys48 =
     fold (\<lambda>i keys48. keys48[unat (keys ! i) := of_nat (i + 1)]) [0..<nc] keys48"

definition addChild16 :: "nat \<Rightarrow> 'v store \<Rightarrow> addr \<Rightarrow> byte \<Rightarrow> addr \<Rightarrow> error + 'v store" where
  "addChild16 M st n c child =
     (case deref (nodes st) n of
        Some (Node16 hdr keys children) \<Rightarrow>
          if numChildren hdr < 16 then
            (let mask = push_bit (unat (numChildren hdr)) (1 :: 32 word) - 1;
                 bitfield = addChild16_bitfield keys c;
                 bitfield = bitfield AND mask;
                 (idx, keys, children) =
                   (if bitfield \<noteq> 0 then
                      (let idx = TrailingZeros32 bitfield;
                           len = unat (numChildren hdr) - idx
                       in (idx, shift_right keys idx len, shift_right children idx len))
                    else (unat (numChildren hdr), keys, children));
                 keys = keys[idx := c];
                 children = children[idx := Some child];
                 hdr = hdr\<lparr>numChildren := numChildren hdr + 1\<rparr>
             in Inr (put st n (Node16 hdr keys children)))
          else
            (let (h, a) = allocNode M node48 (nodes st);
                 st = st\<lparr>nodes := h, ref := Some a\<rparr>
             in if length children < unat (numChildren hdr) then Inl SliceBoundsOutOfRange
                else
                  (let new48 = setChildren (h ! a)
                         (copy_go (getChildren (h ! a)) (take (unat (numChildren hdr)) children));
                       new48 = setKeys new48
                         (addChild16_index keys (unat (numChildren hdr)) (getKeys new48))
                   in case copyHeader M new48 (Node16 hdr keys children) of
                        Inl e \<Rightarrow> Inl e
                      | Inr new48 \<Rightarrow> addChild48 M (put st a new48) a c child))
      | _ \<Rightarrow> Inl InvalidAddress)"

text \<open>
  \<^verbatim>\<open>for idx = 0; idx < int(n.numChildren); idx++ { if c < n.keys[idx] { break } }\<close>
\<close>

function addChild4_idx :: "byte list \<Rightarrow> byte \<Rightarrow> nat \<Rightarrow> nat \<Rightarrow> nat" where
  "addChild4_idx keys c nc idx =
     (if idx < nc then (if c < keys ! idx then idx else addChild4_idx keys c nc (idx + 1))
      else idx)"
  by pat_completeness auto
termination
  by (relation "measure (\<lambda>(keys, c, nc, idx). nc - idx)") auto

declare addChild4_idx.simps [simp del]

definition addChild4 :: "nat \<Rightarrow> 'v store \<Rightarrow> addr \<Rightarrow> byte \<Rightarrow> addr \<Rightarrow> error + 'v store" where
  "addChild4 M st n c child =
     (case deref (nodes st) n of
        Some (Node4 hdr keys children) \<Rightarrow>
          if numChildren hdr < 4 then
            (let idx = addChild4_idx keys c (unat (numChildren hdr)) 0;
                 len = unat (numChildren hdr) - idx;
                 keys = shift_right keys idx len;
                 children = shift_right children idx len;
                 keys = keys[idx := c];
                 children = children[idx := Some child];
                 hdr = hdr\<lparr>numChildren := numChildren hdr + 1\<rparr>
             in Inr (put st n (Node4 hdr keys children)))
          else
            (let (h, a) = allocNode M node16 (nodes st);
                 st = st\<lparr>nodes := h, ref := Some a\<rparr>
             in if length children < unat (numChildren hdr) then Inl SliceBoundsOutOfRange
                else
                  (let new16 = setChildren (h ! a)
                         (copy_go (getChildren (h ! a)) (take (unat (numChildren hdr)) children));
                       new16 = setKeys new16
                         (copy_go (getKeys new16) (take (unat (numChildren hdr)) keys))
                   in case copyHeader M new16 (Node4 hdr keys children) of
                        Inl e \<Rightarrow> Inl e
                      | Inr new16 \<Rightarrow> addChild16 M (put st a new16) a c child))
      | _ \<Rightarrow> Inl InvalidAddress)"

definition addChild :: "nat \<Rightarrow> 'v store \<Rightarrow> addr \<Rightarrow> byte \<Rightarrow> addr \<Rightarrow> error + 'v store" where
  "addChild M st n c child =
     (case deref (nodes st) n of
        None \<Rightarrow> Inl InvalidAddress
      | Some node \<Rightarrow>
         (case getArtNodeType node of
            node4 \<Rightarrow> addChild4 M st n c child
          | node16 \<Rightarrow> addChild16 M st n c child
          | node48 \<Rightarrow> addChild48 M st n c child
          | node256 \<Rightarrow> addChild256 st n c child
          | leafType \<Rightarrow> Inl UnknownNodeType))"

subsection \<open>Removing a child\<close>

text \<open>
  \<^verbatim>\<open>pos := -1; for i, node := range n.children { if node == *l { pos = i; break } }\<close>;
  the argument \<open>l\<close> of the model is the pointer \<^verbatim>\<open>*l\<close>.
\<close>

fun removeChild_pos :: "ptr list \<Rightarrow> ptr \<Rightarrow> nat \<Rightarrow> int" where
  "removeChild_pos [] l i = - 1"
| "removeChild_pos (node # children) l i =
     (if node = l then int i else removeChild_pos children l (i + 1))"

text \<open>
  \<^verbatim>\<open>copy(xs[pos:], xs[pos+1:])\<close>; for an index \<^verbatim>\<open>pos\<close> of the array neither slice
  expression is out of range, for \<^verbatim>\<open>pos = -1\<close> the first one panics.
\<close>

definition shift_left :: "'a list \<Rightarrow> nat \<Rightarrow> 'a list" where
  "shift_left xs pos = take pos xs @ copy_go (drop pos xs) (drop (pos + 1) xs)"

text \<open>
  The prefix concatenation of \<^verbatim>\<open>removeChild4\<close>, from
  \<^verbatim>\<open>prefix := int(n.getPartialLen())\<close> to \<^verbatim>\<open>child.setPartialLen(...)\<close>, on the
  heap: \<open>n\<close> is the address of the Node4 and \<open>ca\<close> that of its remaining child. Every
  statement reads the nodes from the heap as the statements before it left them.
\<close>

definition removeChild4_concat :: "nat \<Rightarrow> 'v heap \<Rightarrow> addr \<Rightarrow> addr \<Rightarrow> error + 'v heap" where
  "removeChild4_concat M h n ca =
     (let prefix = unat (getPartialLen (h ! n))
      in case (if prefix < M then
                 (if length (getPartial (h ! n)) \<le> prefix then Inl IndexOutOfRange
                  else Inr (h[n := setPartial (h ! n)
                                     ((getPartial (h ! n))[prefix := getKeys (h ! n) ! 0])],
                            prefix + 1))
               else Inr (h, prefix)) of
           Inl e \<Rightarrow> Inl e
         | Inr (h, prefix) \<Rightarrow>
            (case (if prefix < M then
                     (let subPrefix = min (unat (getPartialLen (h ! ca))) (M - prefix)
                      in if length (getPartial (h ! n)) < prefix then Inl SliceBoundsOutOfRange
                         else if length (getPartial (h ! ca)) < subPrefix
                           then Inl SliceBoundsOutOfRange
                         else Inr (h[n := setPartial (h ! n)
                                      (take prefix (getPartial (h ! n))
                                       @ copy_go (drop prefix (getPartial (h ! n)))
                                           (take subPrefix (getPartial (h ! ca))))],
                                   prefix + subPrefix))
                   else Inr (h, prefix)) of
               Inl e \<Rightarrow> Inl e
             | Inr (h, prefix) \<Rightarrow>
                (if length (getPartial (h ! n)) < min prefix M then Inl SliceBoundsOutOfRange
                 else
                   (let h = h[ca := setPartial (h ! ca)
                                (copy_go (getPartial (h ! ca))
                                   (take (min prefix M) (getPartial (h ! n))))];
                        h = h[ca := setPartialLen (h ! ca)
                                (getPartialLen (h ! ca) + getPartialLen (h ! n) + 1)]
                    in Inr h))))"

definition removeChild4 :: "nat \<Rightarrow> 'v store \<Rightarrow> addr \<Rightarrow> ptr \<Rightarrow> error + 'v store" where
  "removeChild4 M st n l =
     (case deref (nodes st) n of
        Some (Node4 hdr keys children) \<Rightarrow>
          (let pos = removeChild_pos children l 0
           in if pos < 0 then Inl SliceBoundsOutOfRange
              else
                (let keys = shift_left keys (nat pos);
                     children = shift_left children (nat pos);
                     hdr = hdr\<lparr>numChildren := numChildren hdr - 1\<rparr>;
                     st = put st n (Node4 hdr keys children)
                 in if numChildren hdr = 1 then
                      (case children ! 0 of
                         None \<Rightarrow> Inr st
                       | Some ca \<Rightarrow>
                          (case deref (nodes st) ca of
                             None \<Rightarrow> Inl InvalidAddress
                           | Some child \<Rightarrow>
                              if \<not> isLeaf child then
                                (case removeChild4_concat M (nodes st) n ca of
                                   Inl e \<Rightarrow> Inl e
                                 | Inr h \<Rightarrow> Inr (st\<lparr>nodes := h, ref := Some ca\<rparr>))
                              else Inr (st\<lparr>ref := Some ca\<rparr>)))
                    else Inr st))
      | _ \<Rightarrow> Inl InvalidAddress)"

definition removeChild16 :: "nat \<Rightarrow> 'v store \<Rightarrow> addr \<Rightarrow> ptr \<Rightarrow> error + 'v store" where
  "removeChild16 M st n l =
     (case deref (nodes st) n of
        Some (Node16 hdr keys children) \<Rightarrow>
          (let pos = removeChild_pos children l 0
           in if pos < 0 then Inl SliceBoundsOutOfRange
              else
                (let keys = shift_left keys (nat pos);
                     children = shift_left children (nat pos);
                     hdr = hdr\<lparr>numChildren := numChildren hdr - 1\<rparr>;
                     st = put st n (Node16 hdr keys children)
                 in if numChildren hdr = 3 then
                      (let (h, a) = allocNode M node4 (nodes st);
                           st = st\<lparr>nodes := h, ref := Some a\<rparr>
                       in case copyHeader M (h ! a) (Node16 hdr keys children) of
                            Inl e \<Rightarrow> Inl e
                          | Inr new4 \<Rightarrow>
                             (let new4 = setKeys new4 (copy_go (getKeys new4) (take 4 keys));
                                  new4 = setChildren new4
                                            (copy_go (getChildren new4) (take 4 children))
                              in Inr (put st a new4)))
                    else Inr st))
      | _ \<Rightarrow> Inl InvalidAddress)"

text \<open>
  \<^verbatim>\<open>child := 0; for i := 0; i < 256; i++ { pos = n.keys[i]; if pos != 0 {
     node16.keys[child] = byte(i); node16.children[child] = n.children[pos-1]; child++ } }\<close>
\<close>

function removeChild48_shrink ::
    "byte list \<Rightarrow> ptr list \<Rightarrow> byte list \<Rightarrow> ptr list \<Rightarrow> nat \<Rightarrow> nat
      \<Rightarrow> error + byte list \<times> ptr list" where
  "removeChild48_shrink keys children keys16 children16 child i =
     (if i < 256 then
        (if keys ! i \<noteq> 0 then
           (if length keys16 \<le> child then Inl IndexOutOfRange
            else if length children \<le> unat (keys ! i - 1) then Inl IndexOutOfRange
            else removeChild48_shrink keys children
                   (keys16[child := of_nat i])
                   (children16[child := children ! unat (keys ! i - 1)])
                   (child + 1) (i + 1))
         else removeChild48_shrink keys children keys16 children16 child (i + 1))
      else Inr (keys16, children16))"
  by pat_completeness auto
termination
  by (relation "measure (\<lambda>(keys, children, keys16, children16, child, i). 256 - i)") auto

declare removeChild48_shrink.simps [simp del]

definition removeChild48 :: "nat \<Rightarrow> 'v store \<Rightarrow> addr \<Rightarrow> byte \<Rightarrow> error + 'v store" where
  "removeChild48 M st n c =
     (case deref (nodes st) n of
        Some (Node48 hdr keys children) \<Rightarrow>
          (let pos = keys ! unat c;
               keys = keys[unat c := 0]
           in if length children \<le> unat (pos - 1) then Inl IndexOutOfRange
              else
                (let children = children[unat (pos - 1) := None];
                     hdr = hdr\<lparr>numChildren := numChildren hdr - 1\<rparr>;
                     st = put st n (Node48 hdr keys children)
                 in if numChildren hdr = 12 then
                      (let (h, a) = allocNode M node16 (nodes st);
                           st = st\<lparr>nodes := h, ref := Some a\<rparr>
                       in case copyHeader M (h ! a) (Node48 hdr keys children) of
                            Inl e \<Rightarrow> Inl e
                          | Inr new16 \<Rightarrow>
                             (case removeChild48_shrink keys children
                                     (getKeys new16) (getChildren new16) 0 0 of
                                Inl e \<Rightarrow> Inl e
                              | Inr (keys16, children16) \<Rightarrow>
                                  Inr (put st a (setChildren (setKeys new16 keys16) children16))))
                    else Inr st))
      | _ \<Rightarrow> Inl InvalidAddress)"

text \<open>
  \<^verbatim>\<open>pos := 0; for i := 0; i < 256; i++ { if n.children[i] != nil {
     node48.children[pos] = n.children[i]; node48.keys[i] = byte(pos + 1); pos++ } }\<close>
\<close>

function removeChild256_shrink ::
    "ptr list \<Rightarrow> byte list \<Rightarrow> ptr list \<Rightarrow> nat \<Rightarrow> nat \<Rightarrow> error + byte list \<times> ptr list" where
  "removeChild256_shrink children keys48 children48 pos i =
     (if i < 256 then
        (if children ! i \<noteq> None then
           (if length children48 \<le> pos then Inl IndexOutOfRange
            else removeChild256_shrink children
                   (keys48[i := of_nat (pos + 1)])
                   (children48[pos := children ! i])
                   (pos + 1) (i + 1))
         else removeChild256_shrink children keys48 children48 pos (i + 1))
      else Inr (keys48, children48))"
  by pat_completeness auto
termination
  by (relation "measure (\<lambda>(children, keys48, children48, pos, i). 256 - i)") auto

declare removeChild256_shrink.simps [simp del]

definition removeChild256 :: "nat \<Rightarrow> 'v store \<Rightarrow> addr \<Rightarrow> byte \<Rightarrow> error + 'v store" where
  "removeChild256 M st n c =
     (case deref (nodes st) n of
        Some (Node256 hdr children) \<Rightarrow>
          (let children = children[unat c := None];
               hdr = hdr\<lparr>numChildren := numChildren hdr - 1\<rparr>;
               st = put st n (Node256 hdr children)
           in if numChildren hdr = 37 then
                (let (h, a) = allocNode M node48 (nodes st);
                     st = st\<lparr>nodes := h, ref := Some a\<rparr>
                 in case copyHeader M (h ! a) (Node256 hdr children) of
                      Inl e \<Rightarrow> Inl e
                    | Inr new48 \<Rightarrow>
                       (case removeChild256_shrink children
                               (getKeys new48) (getChildren new48) 0 0 of
                          Inl e \<Rightarrow> Inl e
                        | Inr (keys48, children48) \<Rightarrow>
                            Inr (put st a (setChildren (setKeys new48 keys48) children48))))
              else Inr st)
      | _ \<Rightarrow> Inl InvalidAddress)"

definition removeChild ::
    "nat \<Rightarrow> 'v store \<Rightarrow> addr \<Rightarrow> byte \<Rightarrow> ptr \<Rightarrow> error + 'v store" where
  "removeChild M st n c l =
     (case deref (nodes st) n of
        None \<Rightarrow> Inl InvalidAddress
      | Some node \<Rightarrow>
         (case getArtNodeType node of
            node4 \<Rightarrow> removeChild4 M st n l
          | node16 \<Rightarrow> removeChild16 M st n l
          | node48 \<Rightarrow> removeChild48 M st n c
          | node256 \<Rightarrow> removeChild256 M st n c
          | leafType \<Rightarrow> Inl UnknownNodeType))"

subsection \<open>Representation invariants\<close>

text \<open>
  The byte-to-child association of a node is what \<^verbatim>\<open>findChild\<close> finds: the contents
  of the slot it returns, nil when it returns nil.
\<close>

definition lookup :: "'v node \<Rightarrow> byte \<Rightarrow> ptr" where
  "lookup n c = (case findChild n c of Inr (Some i) \<Rightarrow> getChildren n ! i | _ \<Rightarrow> None)"

text \<open>Parallel key and child lists read as a map from key byte to child.\<close>

definition assoc :: "byte list \<Rightarrow> ptr list \<Rightarrow> byte \<Rightarrow> ptr" where
  "assoc ks cs c = (case map_of (zip ks cs) c of None \<Rightarrow> None | Some p \<Rightarrow> p)"

text \<open>
  Node4 and Node16 (capacity \<open>cap\<close>): the first \<open>numChildren\<close> keys are strictly
  ascending, the first \<open>numChildren\<close> children are not nil and pairwise different
  (a node is owned by one slot).
\<close>

definition wf_small :: "nat \<Rightarrow> header \<Rightarrow> byte list \<Rightarrow> ptr list \<Rightarrow> bool" where
  "wf_small cap hdr keys children \<longleftrightarrow>
     length keys = cap \<and> length children = cap \<and> unat (numChildren hdr) \<le> cap \<and>
     sorted_wrt (<) (take (unat (numChildren hdr)) keys) \<and>
     None \<notin> set (take (unat (numChildren hdr)) children) \<and>
     distinct (take (unat (numChildren hdr)) children)"

text \<open>
  Node48: \<open>numChildren\<close> counts the non-zero index entries and the non-nil slots; a
  non-zero index entry is the number (from 1) of a non-nil slot, no two entries name the
  same slot, and no two slots hold the same child.
\<close>

definition wf48 :: "header \<Rightarrow> byte list \<Rightarrow> ptr list \<Rightarrow> bool" where
  "wf48 hdr keys children \<longleftrightarrow>
     length keys = 256 \<and> length children = 48 \<and>
     unat (numChildren hdr) = length (filter (\<lambda>k. k \<noteq> 0) keys) \<and>
     unat (numChildren hdr) = length (filter (\<lambda>p. p \<noteq> None) children) \<and>
     (\<forall>k \<in> set keys. k \<noteq> 0 \<longrightarrow> unat k \<le> 48 \<and> children ! (unat k - 1) \<noteq> None) \<and>
     distinct (filter (\<lambda>k. k \<noteq> 0) keys) \<and>
     distinct (filter (\<lambda>p. p \<noteq> None) children)"

text \<open>Node256: \<open>numChildren\<close> counts the non-nil slots, which hold different children.\<close>

definition wf256 :: "header \<Rightarrow> ptr list \<Rightarrow> bool" where
  "wf256 hdr children \<longleftrightarrow>
     length children = 256 \<and>
     unat (numChildren hdr) = length (filter (\<lambda>p. p \<noteq> None) children) \<and>
     distinct (filter (\<lambda>p. p \<noteq> None) children)"

fun wf_node :: "'v node \<Rightarrow> bool" where
  "wf_node (NodeLeaf k kl v) = True"
| "wf_node (Node4 hdr keys children) = wf_small 4 hdr keys children"
| "wf_node (Node16 hdr keys children) = wf_small 16 hdr keys children"
| "wf_node (Node48 hdr keys children) = wf48 hdr keys children"
| "wf_node (Node256 hdr children) = wf256 hdr children"

text \<open>The capacity of a variant, and the next larger and next smaller variant.\<close>

fun capacity :: "nodeType \<Rightarrow> nat" where
  "capacity leafType = 0"
| "capacity node4 = 4"
| "capacity node16 = 16"
| "capacity node48 = 48"
| "capacity node256 = 256"

fun larger :: "nodeType \<Rightarrow> nodeType" where
  "larger node4 = node16"
| "larger node16 = node48"
| "larger node48 = node256"
| "larger t = t"

fun smaller :: "nodeType \<Rightarrow> nodeType" where
  "smaller node256 = node48"
| "smaller node48 = node16"
| "smaller node16 = node4"
| "smaller t = t"

text \<open>
  Every internal node of the heap has a prefix buffer of \<open>M\<close> bytes (as \<open>allocNode\<close>
  makes it), and every child pointer is an address of the heap.
\<close>

definition buffer_ok :: "nat \<Rightarrow> 'v node \<Rightarrow> bool" where
  "buffer_ok M n \<longleftrightarrow> isLeaf n \<or> length (getPartial n) = M"

definition ptrs_ok :: "nat \<Rightarrow> 'v node \<Rightarrow> bool" where
  "ptrs_ok len n \<longleftrightarrow>
     list_all (\<lambda>p. case p of None \<Rightarrow> True | Some a \<Rightarrow> a < len) (getChildren n)"

definition heap_ok :: "nat \<Rightarrow> 'v heap \<Rightarrow> bool" where
  "heap_ok M h \<longleftrightarrow> list_all (\<lambda>n. wf_node n \<and> buffer_ok M n \<and> ptrs_ok (length h) n) h"

text \<open>
  What an operation on node \<open>n\<close> has to achieve in the node \<open>n'\<close> that takes its
  place: the child count moves by one, the logical prefix length and the explicit prefix
  bytes stay, and the byte-to-child association changes at \<open>c\<close> only.
\<close>

definition same_prefix :: "nat \<Rightarrow> 'v node \<Rightarrow> 'v node \<Rightarrow> bool" where
  "same_prefix M n n' \<longleftrightarrow>
     getPartialLen n' = getPartialLen n \<and>
     take (min M (unat (getPartialLen n))) (getPartial n') =
       take (min M (unat (getPartialLen n))) (getPartial n)"

definition added :: "nat \<Rightarrow> 'v node \<Rightarrow> byte \<Rightarrow> addr \<Rightarrow> 'v node \<Rightarrow> bool" where
  "added M n c child n' \<longleftrightarrow>
     getNumChildren n' = getNumChildren n + 1 \<and> same_prefix M n n' \<and>
     (\<forall>b. lookup n' b = (if b = c then Some child else lookup n b))"

definition removed :: "nat \<Rightarrow> 'v node \<Rightarrow> byte \<Rightarrow> 'v node \<Rightarrow> bool" where
  "removed M n c n' \<longleftrightarrow>
     getNumChildren n' = getNumChildren n - 1 \<and> same_prefix M n n' \<and>
     (\<forall>b. lookup n' b = (if b = c then None else lookup n b))"

subsection \<open>Example heaps\<close>

text \<open>
  A Node4 at address 0 with the 11-byte logical prefix \<^verbatim>\<open>abcdefghijk\<close>, of which the
  buffer holds the first 10 bytes, above the leaves for the keys \<^verbatim>\<open>abcdefghijkxA$\<close>
  and \<^verbatim>\<open>abcdefghijkyB$\<close>.
\<close>

definition long_prefix_heap :: "nat node list" where
  "long_prefix_heap =
     [Node4 \<lparr>partialLen = 11, numChildren = 2,
             partial = [97, 98, 99, 100, 101, 102, 103, 104, 105, 106]\<rparr>
        [120, 121, 0, 0] [Some 1, Some 2, None, None],
      NodeLeaf [97, 98, 99, 100, 101, 102, 103, 104, 105, 106, 107, 120, 65, 36] 14 1,
      NodeLeaf [97, 98, 99, 100, 101, 102, 103, 104, 105, 106, 107, 121, 66, 36] 14 2]"

text \<open>
  A Node48 at address 0 with 17 children, the leaves for the one-byte keys 1 to 17 at
  the addresses 1 to 17 (key byte \<open>b\<close> is indexed to slot \<open>b - 1\<close>); and a Node48
  without children.
\<close>

definition node48_keys :: "byte list" where
  "node48_keys = map (\<lambda>b. if 1 \<le> b \<and> b \<le> 17 then of_nat b else 0) [0..<256]"

definition node48_children :: "ptr list" where
  "node48_children = map (\<lambda>s. if s < 17 then Some (s + 1) else None) [0..<48]"

definition node48_heap :: "nat node list" where
  "node48_heap =
     Node48 \<lparr>partialLen = 0, numChildren = 17, partial = replicate 10 0\<rparr>
       node48_keys node48_children
     # map (\<lambda>i. NodeLeaf [of_nat i, 36] 2 i) [1..<18]"

definition empty48_heap :: "nat node list" where
  "empty48_heap =
     [Node48 \<lparr>partialLen = 0, numChildren = 0, partial = replicate 10 0\<rparr>
        (replicate 256 0) (replicate 48 None)]"

text \<open>
  A full Node4 at address 0 with the one-byte prefix \<^verbatim>\<open>a\<close> above the leaves for the keys
  \<^verbatim>\<open>a\<close> followed by the bytes 1 to 4, and at address 5 a leaf for the key \<^verbatim>\<open>a\<close>
  followed by the byte 0 that is not yet linked.
\<close>

definition full4_heap :: "nat node list" where
  "full4_heap =
     [Node4 \<lparr>partialLen = 1, numChildren = 4, partial = 97 # replicate 9 0\<rparr>
        [1, 2, 3, 4] [Some 1, Some 2, Some 3, Some 4],
      NodeLeaf [97, 1, 36] 3 1, NodeLeaf [97, 2, 36] 3 2,
      NodeLeaf [97, 3, 36] 3 3, NodeLeaf [97, 4, 36] 3 4,
      NodeLeaf [97, 0, 36] 3 5]"

text \<open>
  A Node4 at address 0 with the prefix \<^verbatim>\<open>ab\<close> and two children: under the byte 1 a
  leaf, under the byte 2 a Node4 (address 2) with the prefix \<^verbatim>\<open>cd\<close> above two leaves.
\<close>

definition collapse_heap :: "nat node list" where
  "collapse_heap =
     [Node4 \<lparr>partialLen = 2, numChildren = 2, partial = [97, 98, 0, 0, 0, 0, 0, 0, 0, 0]\<rparr>
        [1, 2, 0, 0] [Some 1, Some 2, None, None],
      NodeLeaf [97, 98, 1, 36] 4 1,
      Node4 \<lparr>partialLen = 2, numChildren = 2, partial = [99, 100, 0, 0, 0, 0, 0, 0, 0, 0]\<rparr>
        [1, 2, 0, 0] [Some 3, Some 4, None, None],
      NodeLeaf [97, 98, 2, 99, 100, 1, 36] 7 2,
      NodeLeaf [97, 98, 2, 99, 100, 2, 36] 7 3]"

text \<open>
  A Node16 at address 0 with the one-byte prefix \<^verbatim>\<open>a\<close> and four children, the leaves
  for the keys \<^verbatim>\<open>a\<close> followed by the bytes 1 to 4.
\<close>

definition demote_heap :: "nat node list" where
  "demote_heap =
     [Node16 \<lparr>partialLen = 1, numChildren = 4, partial = 97 # replicate 9 0\<rparr>
        ([1, 2, 3, 4] @ replicate 12 0)
        ([Some 1, Some 2, Some 3, Some 4] @ replicate 12 None),
      NodeLeaf [97, 1, 36] 3 1, NodeLeaf [97, 2, 36] 3 2,
      NodeLeaf [97, 3, 36] 3 3, NodeLeaf [97, 4, 36] 3 4]"

section \<open>Properties of the key codec\<close>

lemma getTreeKey_append: "getTreeKey key = key @ [0x24]"
proof -
  have "replicate (length key + 1) (0::byte) = replicate (length key) 0 @ [0]"
    by (simp add: replicate_append_same)
  then show ?thesis
    by (simp add: getTreeKey_def copy_go_def Let_def list_update_append)
qed

text \<open>
  C5, as stated, fails: the terminator \<^verbatim>\<open>'$'\<close> (0x24) is an ordinary byte, so the
  transformed empty key is a strict prefix of the transformed key \<^verbatim>\<open>"$"\<close>.
\<close>

theorem getTreeKey_prefix_counterexample:
  "([] :: byte list) \<noteq> [0x24] \<and> strict_prefix (getTreeKey []) (getTreeKey [0x24])"
  by (simp add: getTreeKey_append)

text \<open>
  C5, amended: the transformed key of \<open>k1\<close> is a strict prefix of the transformed key
  of \<open>k2\<close> exactly when \<open>k1\<close> followed by the terminator is a prefix of \<open>k2\<close>; in
  particular it never is when \<open>k2\<close> does not contain the terminator byte.
\<close>

theorem getTreeKey_strict_prefix:
  "(strict_prefix (getTreeKey k1) (getTreeKey k2) \<longleftrightarrow> prefix (k1 @ [0x24]) k2) \<and>
   (0x24 \<notin> set k2 \<longrightarrow> \<not> strict_prefix (getTreeKey k1) (getTreeKey k2))"
proof -
  have iff: "strict_prefix (getTreeKey k1) (getTreeKey k2) \<longleftrightarrow> prefix (k1 @ [0x24]) k2"
  proof
    assume "strict_prefix (getTreeKey k1) (getTreeKey k2)"
    then obtain ys where ys: "k2 @ [0x24] = (k1 @ [0x24]) @ ys" "ys \<noteq> []"
      by (auto simp: getTreeKey_append strict_prefix_def prefix_def)
    then obtain z zs where e: "k2 @ [0x24] = (k1 @ [0x24]) @ z # zs"
      by (cases ys) auto
    have "k2 = (k1 @ [0x24]) @ butlast (z # zs)"
      using arg_cong [OF e, of butlast] by (simp add: butlast_append)
    then show "prefix (k1 @ [0x24]) k2"
      unfolding prefix_def by blast
  next
    assume "prefix (k1 @ [0x24]) k2"
    then obtain zs where "k2 = (k1 @ [0x24]) @ zs"
      unfolding prefix_def by blast
    then show "strict_prefix (getTreeKey k1) (getTreeKey k2)"
      by (simp add: getTreeKey_append strict_prefix_def prefix_def)
  qed
  moreover have "0x24 \<notin> set k2 \<Longrightarrow> \<not> prefix (k1 @ [0x24]) k2"
    by (auto simp: prefix_def)
  ultimately show ?thesis by blast
qed

theorem getTreeKey_strict_prefix_witness:
  "(0x24::byte) \<notin> set [0x61, 0x62] \<and> \<not> strict_prefix (getTreeKey [0x61]) (getTreeKey [0x61, 0x62])"
  using getTreeKey_strict_prefix [of "[0x61]" "[0x61, 0x62]"] by simp

section \<open>Properties of the header copy\<close>

lemma getHeader_setHeader: "\<not> isLeaf n \<Longrightarrow> getHeader (setHeader n hdr) = hdr"
  by (cases n) (simp_all add: isLeaf_def)

lemma isLeaf_setHeader: "isLeaf (setHeader n hdr) = isLeaf n"
  by (cases n) (simp_all add: isLeaf_def)

lemma getKeys_setHeader: "getKeys (setHeader n hdr) = getKeys n"
  by (cases n) simp_all

lemma getChildren_setHeader: "getChildren (setHeader n hdr) = getChildren n"
  by (cases n) simp_all

lemma getArtNodeType_setHeader: "getArtNodeType (setHeader n hdr) = getArtNodeType n"
  by (cases n) simp_all

lemma setHeader_setHeader: "setHeader (setHeader n hdr) hdr' = setHeader n hdr'"
  by (cases n) simp_all

lemma copyHeader_Inr:
  assumes "\<not> isLeaf dest"
    and "min M (unat (getPartialLen src)) \<le> length (getPartial src)"
    and "min M (unat (getPartialLen src)) \<le> length (getPartial dest)"
  shows "copyHeader M dest src =
     Inr (setHeader dest
       \<lparr>partialLen = getPartialLen src, numChildren = getNumChildren src,
        partial = take (min M (unat (getPartialLen src))) (getPartial src)
                  @ drop (min M (unat (getPartialLen src))) (getPartial dest)\<rparr>)"
proof -
  define L where "L = min M (unat (getPartialLen src))"
  define d1 where "d1 = setPartialLen (setNumChildren dest (getNumChildren src)) (getPartialLen src)"
  have d1: "d1 = setHeader dest ((getHeader dest)\<lparr>numChildren := getNumChildren src,
                    partialLen := getPartialLen src\<rparr>)"
    using assms(1)
    by (simp add: d1_def setPartialLen_def setNumChildren_def getHeader_setHeader
        isLeaf_setHeader setHeader_setHeader)
  have p1: "getPartial d1 = getPartial dest"
    using assms(1) by (simp add: d1 getPartial_def getHeader_setHeader)
  have L: "L \<le> length (getPartial src)" "L \<le> length (getPartial dest)"
    using assms(2,3) by (simp_all add: L_def)
  have cp: "copy_go (take L (getPartial dest)) (take L (getPartial src)) = take L (getPartial src)"
    using L by (simp add: copy_go_def min_absorb2)
  have "copyHeader M dest src = Inr (setPartial d1 (take L (getPartial src) @ drop L (getPartial dest)))"
    using L cp unfolding copyHeader_def Let_def d1_def [symmetric] L_def [symmetric] p1
    by (simp add: not_less)
  also have "setPartial d1 (take L (getPartial src) @ drop L (getPartial dest)) =
     setHeader dest \<lparr>partialLen = getPartialLen src, numChildren = getNumChildren src,
        partial = take L (getPartial src) @ drop L (getPartial dest)\<rparr>"
    using assms(1)
    by (cases "getHeader dest")
       (simp add: d1 setPartial_def getHeader_setHeader isLeaf_setHeader setHeader_setHeader)
  finally show ?thesis by (simp add: L_def)
qed

text \<open>
  C9: for internal nodes \<open>dest\<close> and \<open>src\<close> whose prefix buffers hold at least
  \<open>min(MaxPrefixLen, src.partialLen)\<close> bytes (every allocated node has a buffer of
  \<open>MaxPrefixLen\<close> bytes), \<open>copyHeader\<close> returns \<open>dest\<close> with \<open>numChildren\<close> and
  \<open>partialLen\<close> of \<open>src\<close>, with exactly the first \<open>min(MaxPrefixLen, src.partialLen)\<close>
  bytes of the prefix buffer taken from \<open>src\<close> and the bytes behind them as they were,
  and with the variant, the keys and the children of \<open>dest\<close> unchanged.
\<close>

theorem copyHeader_correct:
  assumes "\<not> isLeaf dest"
    and "min M (unat (getPartialLen src)) \<le> length (getPartial src)"
    and "min M (unat (getPartialLen src)) \<le> length (getPartial dest)"
  shows "\<exists>dest'. copyHeader M dest src = Inr dest' \<and>
           getNumChildren dest' = getNumChildren src \<and>
           getPartialLen dest' = getPartialLen src \<and>
           take (min M (unat (getPartialLen src))) (getPartial dest')
             = take (min M (unat (getPartialLen src))) (getPartial src) \<and>
           drop (min M (unat (getPartialLen src))) (getPartial dest')
             = drop (min M (unat (getPartialLen src))) (getPartial dest) \<and>
           length (getPartial dest') = length (getPartial dest) \<and>
           getArtNodeType dest' = getArtNodeType dest \<and>
           getKeys dest' = getKeys dest \<and>
           getChildren dest' = getChildren dest"
proof -
  define L where "L = min M (unat (getPartialLen src))"
  have L: "L \<le> length (getPartial src)" "L \<le> length (getPartial dest)"
    using assms(2,3) by (simp_all add: L_def)
  show ?thesis
    unfolding copyHeader_Inr [OF assms] L_def [symmetric]
    using assms(1) L
    by (simp add: getNumChildren_def getPartialLen_def getPartial_def getHeader_setHeader
        getKeys_setHeader getChildren_setHeader getArtNodeType_setHeader min_absorb2)
qed

theorem copyHeader_correct_witness:
  "\<exists>dest'. copyHeader 3
       (Node4 \<lparr>partialLen = 3, numChildren = 0, partial = [0, 0, 0]\<rparr>
          [0, 0, 0, 0] [None, None, None, None])
       (Node16 \<lparr>partialLen = 2, numChildren = 3, partial = [7, 8, 9]\<rparr>
          (replicate 16 0) (replicate 16 (None::ptr))) = Inr (dest' :: nat node) \<and>
     getNumChildren dest' = 3 \<and> getPartialLen dest' = 2 \<and>
     take 2 (getPartial dest') = [7, 8] \<and> drop 2 (getPartial dest') = [0]"
  using copyHeader_correct [of
      "Node4 \<lparr>partialLen = 3, numChildren = 0, partial = [0, 0, 0]\<rparr>
          [0, 0, 0, 0] [None, None, None, None] :: nat node" 3
      "Node16 \<lparr>partialLen = 2, numChildren = 3, partial = [7, 8, 9]\<rparr>
          (replicate 16 0) (replicate 16 (None::ptr))"]
  by (auto simp add: isLeaf_def getPartialLen_def getPartial_def getNumChildren_def)

section \<open>Properties of the prefix comparison\<close>

lemma prefix_loop_char:
  assumes "idx \<le> maxCmp" "xoff + maxCmp \<le> length xs" "depth + maxCmp \<le> length key"
  shows "\<exists>r. prefix_loop xs xoff key depth maxCmp idx = Inr r \<and>
            idx \<le> exit_idx r \<and> exit_idx r \<le> maxCmp \<and>
            (\<forall>j. idx \<le> j \<and> j < exit_idx r \<longrightarrow> xs ! (xoff + j) = key ! (depth + j)) \<and>
            (\<forall>i. r = Return i \<longrightarrow> i < maxCmp \<and> xs ! (xoff + i) \<noteq> key ! (depth + i)) \<and>
            (\<forall>i. r = Fallthrough i \<longrightarrow> i = maxCmp)"
  using assms
proof (induction xs xoff key depth maxCmp idx rule: prefix_loop.induct)
  case (1 xs xoff key depth maxCmp idx)
  show ?case
  proof (cases "idx < maxCmp")
    case False
    then have "prefix_loop xs xoff key depth maxCmp idx = Inr (Fallthrough idx)"
      by (subst prefix_loop.simps) simp
    moreover from False "1.prems" have "idx = maxCmp" by simp
    ultimately show ?thesis by auto
  next
    case True
    with "1.prems" have inb: "\<not> length xs \<le> xoff + idx" "\<not> length key \<le> depth + idx"
      by simp_all
    show ?thesis
    proof (cases "xs ! (xoff + idx) \<noteq> key ! (depth + idx)")
      case True
      with \<open>idx < maxCmp\<close> inb
      have "prefix_loop xs xoff key depth maxCmp idx = Inr (Return idx)"
        by (subst prefix_loop.simps) simp
      with True \<open>idx < maxCmp\<close> show ?thesis by auto
    next
      case False
      with \<open>idx < maxCmp\<close> inb
      have e: "prefix_loop xs xoff key depth maxCmp idx =
               prefix_loop xs xoff key depth maxCmp (idx + 1)"
        by (subst prefix_loop.simps) simp
      from \<open>idx < maxCmp\<close> have "idx + 1 \<le> maxCmp" by simp
      from "1.IH" [OF \<open>idx < maxCmp\<close> inb False this "1.prems"(2,3)]
      obtain r where r: "prefix_loop xs xoff key depth maxCmp (idx + 1) = Inr r"
        "idx + 1 \<le> exit_idx r" "exit_idx r \<le> maxCmp"
        "\<forall>j. idx + 1 \<le> j \<and> j < exit_idx r \<longrightarrow> xs ! (xoff + j) = key ! (depth + j)"
        "\<forall>i. r = Return i \<longrightarrow> i < maxCmp \<and> xs ! (xoff + i) \<noteq> key ! (depth + i)"
        "\<forall>i. r = Fallthrough i \<longrightarrow> i = maxCmp"
        by blast
      have "xs ! (xoff + j) = key ! (depth + j)" if "idx \<le> j" "j < exit_idx r" for j
        using that r(4) False by (cases "j = idx") auto
      with r show ?thesis unfolding e by auto
    qed
  qed
qed

lemma lcp_length_unique:
  assumes "r \<le> length xs" "r \<le> length ys" "\<forall>j<r. xs ! j = ys ! j"
    and "r < length xs \<and> r < length ys \<longrightarrow> xs ! r \<noteq> ys ! r"
  shows "length (longest_common_prefix xs ys) = r"
  using assms
proof (induction xs ys arbitrary: r rule: longest_common_prefix.induct)
  case (1 x xs y ys)
  show ?case
  proof (cases r)
    case 0
    with "1.prems" show ?thesis by simp
  next
    case (Suc r')
    with "1.prems" have "x = y" by auto
    have "length (longest_common_prefix xs ys) = r'"
      using "1.prems" Suc by (intro "1.IH") auto
    with \<open>x = y\<close> Suc show ?thesis by simp
  qed
qed auto

lemma lcp_take: "longest_common_prefix (take n xs) ys = take n (longest_common_prefix xs ys)"
  by (induction xs ys arbitrary: n rule: longest_common_prefix.induct)
     (auto simp: take_Cons')

lemma checkPrefix_eq_prefixMismatch:
  assumes "deref h a = Some n" "\<not> M < unat (getPartialLen n)"
  shows "prefixMismatch M h a key keyLen depth = Some (checkPrefix M n key keyLen depth)"
proof -
  have m: "min (min M (unat (getPartialLen n))) (keyLen - depth) =
           min (min (unat (getPartialLen n)) M) (keyLen - depth)"
    by (simp add: min.commute)
  show ?thesis
    using assms unfolding prefixMismatch_def checkPrefix_def Let_def m
    by (simp split: sum.splits loop_exit.splits)
qed

lemma prefixMismatch_long:
  assumes n: "deref h a = Some n" and long: "M < unat (getPartialLen n)"
    and kl: "keyLen = length key" and d: "depth \<le> keyLen"
    and mi: "minimum h (Some a) = Some (Inr (Some la))"
    and l: "deref h la = Some (NodeLeaf lkey lkeyLen v)" and ll: "unat lkeyLen = length lkey"
    and lk: "depth + M \<le> length lkey"
    and cons: "take M (getPartial n) = take M (drop depth lkey)"
  shows "prefixMismatch M h a key keyLen depth =
           Some (Inr (length (longest_common_prefix (drop depth lkey) (drop depth key))))"
proof -
  let ?X = "drop depth lkey" and ?K = "drop depth key" and ?P = "getPartial n"
  define m1 where "m1 = min M (keyLen - depth)"
  define m2 where "m2 = min (length lkey) keyLen - depth"
  have lenP: "M \<le> length ?P"
    using arg_cong [OF cons, of length] lk by simp
  have agree: "?P ! j = ?X ! j" if "j < M" for j
    using nth_take [OF that, of ?P] nth_take [OF that, of ?X] cons by simp
  have m12: "m1 \<le> m2" using lk d by (simp add: m1_def m2_def)
  obtain r1 where r1: "prefix_loop ?P 0 key depth m1 0 = Inr r1" "exit_idx r1 \<le> m1"
      "\<forall>j. j < exit_idx r1 \<longrightarrow> ?P ! j = key ! (depth + j)"
      "\<forall>i. r1 = Return i \<longrightarrow> i < m1 \<and> ?P ! i \<noteq> key ! (depth + i)"
      "\<forall>i. r1 = Fallthrough i \<longrightarrow> i = m1"
  proof -
    have "0 \<le> m1" "0 + m1 \<le> length ?P" "depth + m1 \<le> length key"
      using lenP d kl by (simp_all add: m1_def)
    from prefix_loop_char [OF this] show ?thesis
      using that by auto
  qed
  have char: "length (longest_common_prefix ?X ?K) = r"
    if "r \<le> m2" "\<forall>j<r. lkey ! (depth + j) = key ! (depth + j)"
       "r < m2 \<longrightarrow> lkey ! (depth + r) \<noteq> key ! (depth + r)" for r
    using that d kl by (intro lcp_length_unique) (auto simp: m2_def)
  show ?thesis
  proof (cases r1)
    case (Return i)
    with r1 have i: "i < m1" "?P ! i \<noteq> key ! (depth + i)" "\<forall>j<i. ?P ! j = key ! (depth + j)"
      by auto
    have "length (longest_common_prefix ?X ?K) = i"
    proof (rule char)
      show "i \<le> m2" using i(1) m12 by simp
      show "\<forall>j<i. lkey ! (depth + j) = key ! (depth + j)"
        using i(1,3) agree lk by (auto simp: m1_def)
      show "i < m2 \<longrightarrow> lkey ! (depth + i) \<noteq> key ! (depth + i)"
        using i(1,2) agree [of i] lk by (auto simp: m1_def)
    qed
    then show ?thesis
      using n r1(1) Return long by (simp add: prefixMismatch_def m1_def [symmetric])
  next
    case (Fallthrough i)
    with r1 have i: "i = m1" "\<forall>j<m1. ?P ! j = key ! (depth + j)" by auto
    obtain r2 where r2: "prefix_loop lkey depth key depth m2 m1 = Inr r2"
        "m1 \<le> exit_idx r2" "exit_idx r2 \<le> m2"
        "\<forall>j. m1 \<le> j \<and> j < exit_idx r2 \<longrightarrow> lkey ! (depth + j) = key ! (depth + j)"
        "\<forall>i. r2 = Return i \<longrightarrow> i < m2 \<and> lkey ! (depth + i) \<noteq> key ! (depth + i)"
        "\<forall>i. r2 = Fallthrough i \<longrightarrow> i = m2"
    proof -
      have "depth + m2 \<le> length lkey" "depth + m2 \<le> length key"
        using d kl lk by (simp_all add: m2_def)
      from prefix_loop_char [OF m12 this] show ?thesis
        using that by auto
    qed
    have "length (longest_common_prefix ?X ?K) = exit_idx r2"
    proof (rule char)
      show "exit_idx r2 \<le> m2" by (rule r2(3))
      show "\<forall>j<exit_idx r2. lkey ! (depth + j) = key ! (depth + j)"
      proof (intro allI impI)
        fix j assume "j < exit_idx r2"
        show "lkey ! (depth + j) = key ! (depth + j)"
        proof (cases "j < m1")
          case True
          then have "j < M" by (simp add: m1_def)
          with True i(2) agree [of j] lk show ?thesis by simp
        next
          case False
          with \<open>j < exit_idx r2\<close> r2(4) show ?thesis by simp
        qed
      qed
      show "exit_idx r2 < m2 \<longrightarrow> lkey ! (depth + exit_idx r2) \<noteq> key ! (depth + exit_idx r2)"
        using r2(5,6) by (cases r2) auto
    qed
    then show ?thesis
      using n r1(1) Fallthrough i(1) long mi l ll r2(1)
      by (simp add: prefixMismatch_def m1_def [symmetric] m2_def)
  qed
qed

lemma minimum_long_prefix_heap: "minimum long_prefix_heap (Some 0) = Some (Inr (Some 1))"
  by (simp add: minimum.simps long_prefix_heap_def deref_def)

text \<open>
  C6, as stated, fails for a key that goes on to agree with the minimum leaf behind the
  node's prefix. With \<open>MaxPrefixLen = 10\<close>, the node at address 0 has the logical prefix
  \<^verbatim>\<open>abcdefghijk\<close> (11 bytes); the key \<^verbatim>\<open>abcdefghijkxZ$\<close> agrees with all 11 bytes
  of it, so the first disagreement with the prefix is at index 11, its end. The second
  loop of \<^verbatim>\<open>prefixMismatch\<close> is bounded by the key lengths and not by
  \<^verbatim>\<open>partialLen\<close>: it returns 12, the first disagreement with the leaf's key
  \<^verbatim>\<open>abcdefghijkxA$\<close>.
\<close>

theorem prefixMismatch_counterexample:
  "prefixMismatch 10 long_prefix_heap 0
      [97, 98, 99, 100, 101, 102, 103, 104, 105, 106, 107, 120, 90, 36] 14 0 = Some (Inr 12) \<and>
   getPartialLen (long_prefix_heap ! 0) = 11 \<and>
   length (longest_common_prefix
      (take 11 [97, 98, 99, 100, 101, 102, 103, 104, 105, 106, 107, 120, 65, 36])
      [97, 98, 99, 100, 101, 102, 103, 104, 105, 106, 107, 120, 90, 36 :: byte]) = 11"
  unfolding prefixMismatch_def minimum_long_prefix_heap by code_simp

text \<open>
  C6, amended. For a node \<open>n\<close> at address \<open>a\<close>, a key with \<open>keyLen = len(key)\<close> and
  \<open>depth \<le> keyLen\<close>:
  \<^item> when \<open>partialLen \<le> MaxPrefixLen\<close>, \<open>prefixMismatch\<close> returns what \<open>checkPrefix\<close>
    returns;
  \<^item> when \<open>partialLen > MaxPrefixLen\<close>, \<open>minimum\<close> finds the leaf \<open>l\<close> beneath \<open>n\<close>, and
    the explicit prefix bytes of \<open>n\<close> are the bytes of \<open>l.key\<close> from \<open>depth\<close>, then
    \<open>prefixMismatch\<close> returns the index of the first byte at which the key (from
    \<open>depth\<close>) disagrees with \<open>l.key\<close> (from \<open>depth\<close>), or the length of the shorter of
    the two when there is none. This index, capped at \<open>partialLen\<close>, is the index of the
    first disagreement with the full logical prefix (the \<open>partialLen\<close> bytes of \<open>l.key\<close>
    from \<open>depth\<close>); uncapped it exceeds \<open>partialLen\<close> when the key agrees with the leaf
    beyond the prefix.
\<close>

theorem prefixMismatch_correct:
  assumes "deref h a = Some n" and "keyLen = length key" and "depth \<le> keyLen"
  shows "(unat (getPartialLen n) \<le> M \<longrightarrow>
            prefixMismatch M h a key keyLen depth = Some (checkPrefix M n key keyLen depth)) \<and>
         (M < unat (getPartialLen n) \<and> minimum h (Some a) = Some (Inr (Some la)) \<and>
          deref h la = Some (NodeLeaf lkey lkeyLen v) \<and> unat lkeyLen = length lkey \<and>
          depth + M \<le> length lkey \<and> take M (getPartial n) = take M (drop depth lkey) \<longrightarrow>
            prefixMismatch M h a key keyLen depth =
              Some (Inr (length (longest_common_prefix (drop depth lkey) (drop depth key)))) \<and>
            min (unat (getPartialLen n))
                (length (longest_common_prefix (drop depth lkey) (drop depth key))) =
              length (longest_common_prefix
                        (take (unat (getPartialLen n)) (drop depth lkey)) (drop depth key)))"
proof (intro conjI impI)
  assume "unat (getPartialLen n) \<le> M"
  then have "\<not> M < unat (getPartialLen n)" by simp
  with assms(1) show "prefixMismatch M h a key keyLen depth = Some (checkPrefix M n key keyLen depth)"
    by (rule checkPrefix_eq_prefixMismatch)
next
  assume a: "M < unat (getPartialLen n) \<and> minimum h (Some a) = Some (Inr (Some la)) \<and>
          deref h la = Some (NodeLeaf lkey lkeyLen v) \<and> unat lkeyLen = length lkey \<and>
          depth + M \<le> length lkey \<and> take M (getPartial n) = take M (drop depth lkey)"
  then show "prefixMismatch M h a key keyLen depth =
              Some (Inr (length (longest_common_prefix (drop depth lkey) (drop depth key))))"
    using assms by (intro prefixMismatch_long) auto
next
  show "min (unat (getPartialLen n))
                (length (longest_common_prefix (drop depth lkey) (drop depth key))) =
              length (longest_common_prefix
                        (take (unat (getPartialLen n)) (drop depth lkey)) (drop depth key))"
    by (simp add: lcp_take min.commute)
qed

theorem prefixMismatch_correct_witness:
  "(10 < unat (getPartialLen (long_prefix_heap ! 0)) \<and>
    minimum long_prefix_heap (Some 0) = Some (Inr (Some 1)) \<and>
    prefixMismatch 10 long_prefix_heap 0
      [97, 98, 99, 100, 101, 102, 103, 104, 105, 106, 107, 120, 90, 36] 14 0 =
     Some (Inr (length (longest_common_prefix
        (drop 0 [97, 98, 99, 100, 101, 102, 103, 104, 105, 106, 107, 120, 65, 36])
        (drop 0 [97, 98, 99, 100, 101, 102, 103, 104, 105, 106, 107, 120, 90, 36 :: byte]))))) \<and>
   (unat (getPartialLen (long_prefix_heap ! 0)) \<le> 11 \<and>
    prefixMismatch 11 long_prefix_heap 0
      [97, 98, 99, 100, 101, 102, 103, 104, 105, 106, 107, 120, 90, 36] 14 0 =
     Some (checkPrefix 11 (long_prefix_heap ! 0)
       [97, 98, 99, 100, 101, 102, 103, 104, 105, 106, 107, 120, 90, 36] 14 0))"
proof -
  let ?K = "[97, 98, 99, 100, 101, 102, 103, 104, 105, 106, 107, 120, 90, 36 :: byte]"
  let ?L = "[97, 98, 99, 100, 101, 102, 103, 104, 105, 106, 107, 120, 65, 36 :: byte]"
  have d0: "deref long_prefix_heap 0 = Some (long_prefix_heap ! 0)"
    by (simp add: deref_def long_prefix_heap_def)
  have kl: "14 = length ?K" by simp
  have dl: "(0::nat) \<le> 14" by simp
  have p: "unat (getPartialLen (long_prefix_heap ! 0)) = 11"
    by (simp add: long_prefix_heap_def getPartialLen_def)
  have hyp: "10 < unat (getPartialLen (long_prefix_heap ! 0)) \<and>
      minimum long_prefix_heap (Some 0) = Some (Inr (Some 1)) \<and>
      deref long_prefix_heap 1 = Some (NodeLeaf ?L 14 1) \<and> unat (14 :: 32 word) = length ?L \<and>
      0 + 10 \<le> length ?L \<and> take 10 (getPartial (long_prefix_heap ! 0)) = take 10 (drop 0 ?L)"
  proof (intro conjI)
    show "10 < unat (getPartialLen (long_prefix_heap ! 0))" by (simp add: p)
    show "minimum long_prefix_heap (Some 0) = Some (Inr (Some 1))"
      by (rule minimum_long_prefix_heap)
    show "deref long_prefix_heap 1 = Some (NodeLeaf ?L 14 1)"
      by (simp add: deref_def long_prefix_heap_def)
    show "take 10 (getPartial (long_prefix_heap ! 0)) = take 10 (drop 0 ?L)"
      by (simp add: long_prefix_heap_def getPartial_def)
  qed simp_all
  from prefixMismatch_correct [OF d0 kl dl, of 10 1 ?L 14 1, THEN conjunct2] hyp
  have "prefixMismatch 10 long_prefix_heap 0 ?K 14 0 =
          Some (Inr (length (longest_common_prefix (drop 0 ?L) (drop 0 ?K))))"
    by blast
  moreover from prefixMismatch_correct [OF d0 kl dl, of 11, THEN conjunct1] p
  have "prefixMismatch 11 long_prefix_heap 0 ?K 14 0 =
          Some (checkPrefix 11 (long_prefix_heap ! 0) ?K 14 0)"
    by simp
  ultimately show ?thesis
    using hyp p by simp
qed

section \<open>Properties of minimum and maximum\<close>

lemma minimum_scan48_props:
  "idx \<le> 256 \<Longrightarrow>
   idx \<le> minimum_scan48 keys idx \<and> minimum_scan48 keys idx \<le> 256 \<and>
   (\<forall>j. idx \<le> j \<and> j < minimum_scan48 keys idx \<longrightarrow> keys ! j = 0) \<and>
   (minimum_scan48 keys idx < 256 \<longrightarrow> keys ! minimum_scan48 keys idx \<noteq> 0)"
proof (induction keys idx rule: minimum_scan48.induct)
  case (1 keys idx)
  show ?case
  proof (cases "idx < 256 \<and> keys ! idx = 0")
    case True
    then have e: "minimum_scan48 keys idx = minimum_scan48 keys (idx + 1)"
      by (subst minimum_scan48.simps) simp
    from True have le: "idx + 1 \<le> 256" by simp
    have step: "keys ! j = 0" if "idx \<le> j" "j < minimum_scan48 keys (idx + 1)" for j
    proof (cases "j = idx")
      case True
      with \<open>idx < 256 \<and> keys ! idx = 0\<close> show ?thesis by simp
    next
      case False
      with that "1.IH" [OF True le] show ?thesis by simp
    qed
    from "1.IH" [OF True le] step show ?thesis
      unfolding e by auto
  next
    case False
    then have e: "minimum_scan48 keys idx = idx"
      by (subst minimum_scan48.simps) auto
    from False "1.prems" show ?thesis unfolding e by auto
  qed
qed

lemma filter_nonempty_nth: "(filter P xs \<noteq> []) = (\<exists>i<length xs. P (xs ! i))"
  by (auto simp: filter_empty_conv in_set_conv_nth) (metis nth_mem)

text \<open>
  C10: for a Node48 whose \<open>numChildren\<close> is the number of non-zero index entries, the
  scan of \<open>minimum\<close> stops at an occupied index entry below 256 when the node has at
  least one child; the read \<open>keys[idx]\<close> is then in bounds, the children access is
  guarded by \<open>idx < 48\<close>, and \<open>minimum\<close> goes on to that child. With no child the scan
  runs to 256 and the read \<open>keys[256]\<close> panics. The panic of this step happens exactly
  when \<open>numChildren\<close> is 0.
\<close>

theorem minimum_node48_in_bounds:
  assumes "deref h a = Some (Node48 hdr keys children)"
    and "length keys = 256" and "length children = 48"
    and "unat (numChildren hdr) = length (filter (\<lambda>k. k \<noteq> 0) keys)"
  shows "(numChildren hdr \<noteq> 0 \<longrightarrow>
            minimum_scan48 keys 0 < 256 \<and> keys ! minimum_scan48 keys 0 \<noteq> 0 \<and>
            minimum_slot48 keys = Inr (unat (keys ! minimum_scan48 keys 0 - 1)) \<and>
            minimum h (Some a) =
              (if unat (keys ! minimum_scan48 keys 0 - 1) < length children
               then minimum h (children ! unat (keys ! minimum_scan48 keys 0 - 1))
               else Some (Inr None))) \<and>
         (numChildren hdr = 0 \<longrightarrow>
            minimum_scan48 keys 0 = 256 \<and> minimum_slot48 keys = Inl IndexOutOfRange \<and>
            minimum h (Some a) = Some (Inl IndexOutOfRange)) \<and>
         (minimum_slot48 keys = Inl IndexOutOfRange \<longleftrightarrow> numChildren hdr = 0)"
proof -
  let ?s = "minimum_scan48 keys 0"
  have props: "?s \<le> 256" "\<forall>j. j < ?s \<longrightarrow> keys ! j = 0" "?s < 256 \<longrightarrow> keys ! ?s \<noteq> 0"
    using minimum_scan48_props [of 0 keys] by auto
  have zero_iff: "numChildren hdr = 0 \<longleftrightarrow> (\<forall>i<256. keys ! i = 0)"
  proof -
    have "numChildren hdr = 0 \<longleftrightarrow> unat (numChildren hdr) = 0"
      by (simp add: unat_eq_0)
    also have "\<dots> \<longleftrightarrow> filter (\<lambda>k. k \<noteq> 0) keys = []"
      using assms(4) by simp
    also have "\<dots> \<longleftrightarrow> (\<forall>i<256. keys ! i = 0)"
      using filter_nonempty_nth [of "\<lambda>k. k \<noteq> 0" keys] assms(2) by auto
    finally show ?thesis .
  qed
  have s256: "?s = 256 \<longleftrightarrow> numChildren hdr = 0"
  proof
    assume "?s = 256"
    with props(2) show "numChildren hdr = 0" by (simp add: zero_iff)
  next
    assume "numChildren hdr = 0"
    with props(1,3) show "?s = 256" by (auto simp: zero_iff le_less)
  qed
  have slot: "minimum_slot48 keys =
                (if ?s = 256 then Inl IndexOutOfRange else Inr (unat (keys ! ?s - 1)))"
    using props(1) assms(2) by (auto simp: minimum_slot48_def Let_def)
  have m: "minimum h (Some a) =
     (case minimum_slot48 keys of Inl e \<Rightarrow> Some (Inl e)
      | Inr idx \<Rightarrow> if idx < 48 then minimum h (children ! idx) else Some (Inr None))"
    by (subst minimum.simps) (simp add: assms(1))
  show ?thesis
    using s256 props(1,3) by (auto simp: slot m assms(3))
qed

lemma node48_heap_0:
  "deref node48_heap 0 =
     Some (Node48 \<lparr>partialLen = 0, numChildren = 17, partial = replicate 10 0\<rparr>
             node48_keys node48_children)"
  by (simp add: deref_def node48_heap_def)

lemma node48_heap_shape:
  "length node48_keys = 256" "length node48_children = 48"
  "length (filter (\<lambda>k. k \<noteq> 0) node48_keys) = 17"
  by (simp add: node48_keys_def, simp add: node48_children_def) code_simp

lemma empty48_heap_0:
  "deref empty48_heap 0 =
     Some (Node48 \<lparr>partialLen = 0, numChildren = 0, partial = replicate 10 0\<rparr>
             (replicate 256 0) (replicate 48 None))"
  by (simp add: deref_def empty48_heap_def)

theorem minimum_node48_in_bounds_witness:
  "(numChildren \<lparr>partialLen = 0, numChildren = 17, partial = replicate 10 0\<rparr> \<noteq> 0 \<and>
    minimum_scan48 node48_keys 0 < 256 \<and> node48_keys ! minimum_scan48 node48_keys 0 \<noteq> 0 \<and>
    minimum_slot48 node48_keys = Inr (unat (node48_keys ! minimum_scan48 node48_keys 0 - 1))) \<and>
   (numChildren \<lparr>partialLen = 0, numChildren = 0, partial = replicate 10 0\<rparr> = 0 \<and>
    minimum empty48_heap (Some 0) = Some (Inl IndexOutOfRange))"
proof -
  have n17: "numChildren \<lparr>partialLen = 0, numChildren = 17, partial = replicate 10 0\<rparr> \<noteq> 0"
    "unat (numChildren \<lparr>partialLen = 0, numChildren = 17, partial = replicate 10 0\<rparr>)
       = length (filter (\<lambda>k. k \<noteq> 0) node48_keys)"
    by (simp_all add: node48_heap_shape)
  have n0: "numChildren \<lparr>partialLen = 0, numChildren = 0, partial = replicate 10 0\<rparr> = 0"
    "unat (numChildren \<lparr>partialLen = 0, numChildren = 0, partial = replicate 10 0\<rparr>)
       = length (filter (\<lambda>k. k \<noteq> 0) (replicate 256 (0::byte)))"
    by simp_all
  from minimum_node48_in_bounds [OF node48_heap_0 node48_heap_shape(1,2) n17(2)] n17(1)
  have a: "minimum_scan48 node48_keys 0 < 256 \<and> node48_keys ! minimum_scan48 node48_keys 0 \<noteq> 0 \<and>
    minimum_slot48 node48_keys = Inr (unat (node48_keys ! minimum_scan48 node48_keys 0 - 1))"
    by blast
  from minimum_node48_in_bounds [OF empty48_heap_0 _ _ n0(2)] n0(1)
  have b: "minimum empty48_heap (Some 0) = Some (Inl IndexOutOfRange)"
    by simp
  from a b n17(1) n0(1) show ?thesis by blast
qed

lemma maximum_Node48_panics:
  assumes "deref h a = Some (Node48 hdr keys children)" and "length children = 48"
  shows "maximum h (Some a) = Some (Inl IndexOutOfRange)"
proof -
  have "maximum_scan children 255 = Inl IndexOutOfRange"
    using assms(2) by (subst maximum_scan.simps) simp
  then show ?thesis
    by (subst maximum.simps) (simp add: assms(1))
qed

lemma minimum_node48_heap: "minimum node48_heap (Some 0) = Some (Inr (Some 1))"
proof -
  have s: "minimum_slot48 node48_keys = Inr 0" by code_simp
  have c: "node48_children ! 0 = Some 1" by code_simp
  have l: "deref node48_heap 1 = Some (NodeLeaf [1, 36] 2 1)" by code_simp
  have "minimum node48_heap (Some 0) = minimum node48_heap (Some 1)"
    by (subst minimum.simps) (simp add: node48_heap_0 s c)
  also have "\<dots> = Some (Inr (Some 1))"
    using l by (subst minimum.simps) simp
  finally show ?thesis .
qed

text \<open>
  C7 fails on the code: \<open>maximum\<close> scans the \<open>children\<close> array of a Node48 from
  index 255, as it does for a Node256, but that array has 48 slots, so the first read
  panics. On the Node48 with the 17 children for the key bytes 1 to 17, \<open>minimum\<close>
  returns the leaf of key byte 1 and \<open>maximum\<close> panics instead of returning the leaf of
  key byte 17.
\<close>

theorem maximum_node48_panics:
  "maximum node48_heap (Some 0) = Some (Inl IndexOutOfRange) \<and>
   minimum node48_heap (Some 0) = Some (Inr (Some 1)) \<and>
   wf_node (node48_heap ! 0)"
proof -
  have "maximum node48_heap (Some 0) = Some (Inl IndexOutOfRange)"
    using node48_heap_0 node48_heap_shape(2) by (rule maximum_Node48_panics)
  moreover have "wf_node (node48_heap ! 0)" by code_simp
  ultimately show ?thesis using minimum_node48_heap by blast
qed

section \<open>Auxiliary facts about lists, words and association lists\<close>

lemma length_copy_go [simp]: "length (copy_go dst src) = length dst"
  by (simp add: copy_go_def)

lemma copy_go_short: "length src \<le> length dst \<Longrightarrow> copy_go dst src = src @ drop (length src) dst"
  by (simp add: copy_go_def min_absorb2)

lemma copy_go_long: "length dst \<le> length src \<Longrightarrow> copy_go dst src = take (length dst) src"
  by (simp add: copy_go_def min_absorb1)

lemma shift_right_update:
  assumes "idx \<le> nc" "nc < length xs"
  shows "(shift_right xs idx (nc - idx))[idx := v] =
           take idx xs @ v # take (nc - idx) (drop idx xs) @ drop (nc + 1) xs"
proof -
  have "copy_go (drop (idx + 1) xs) (take (nc - idx) (drop idx xs)) =
          take (nc - idx) (drop idx xs) @ drop (nc + 1) xs"
    using assms by (subst copy_go_short) (simp_all add: add.commute)
  moreover have "take (idx + 1) xs = take idx xs @ [xs ! idx]"
    using assms by (simp add: take_Suc_conv_app_nth)
  ultimately show ?thesis
    using assms by (simp add: shift_right_def list_update_append)
qed

lemma ins_length:
  assumes "idx \<le> nc" "nc < length xs"
  shows "length (take idx xs @ v # take (nc - idx) (drop idx xs) @ drop (nc + 1) xs) = length xs"
  using assms by simp

lemma ins_take:
  assumes "idx \<le> nc" "nc < length xs"
  shows "take (nc + 1) (take idx xs @ v # take (nc - idx) (drop idx xs) @ drop (nc + 1) xs) =
           take idx (take nc xs) @ v # drop idx (take nc xs)"
  using assms by (simp add: min_absorb2 drop_take Suc_diff_le)

lemma shift_left_eq:
  assumes "pos < length xs"
  shows "shift_left xs pos = take pos xs @ drop (pos + 1) xs @ [last xs]"
proof -
  have "drop (length xs - Suc pos) (drop pos xs) = [last xs]"
  proof -
    have "drop (length xs - Suc pos) (drop pos xs) = drop (length xs - 1) xs"
      using assms by simp
    also have "\<dots> = [last xs]"
      using assms by (cases xs rule: rev_cases) simp_all
    finally show ?thesis .
  qed
  then show ?thesis
    using assms by (simp add: shift_left_def copy_go_short)
qed

lemma shift_left_length [simp]: "length (shift_left xs pos) = length xs"
  by (simp add: shift_left_def)

lemma shift_left_take:
  assumes "pos < nc" "nc \<le> length xs"
  shows "take (nc - 1) (shift_left xs pos) = take pos (take nc xs) @ drop (pos + 1) (take nc xs)"
  using assms by (simp add: shift_left_eq min_absorb2 drop_take)

lemma shift_left_take_stale:
  assumes "nc \<le> pos" "pos < length xs"
  shows "take (nc - 1) (shift_left xs pos) = take (nc - 1) xs"
  using assms by (simp add: shift_left_eq min_absorb2)

lemma addChild4_idx_char:
  "idx \<le> nc \<Longrightarrow>
     idx \<le> addChild4_idx keys c nc idx \<and> addChild4_idx keys c nc idx \<le> nc \<and>
     (\<forall>j. idx \<le> j \<and> j < addChild4_idx keys c nc idx \<longrightarrow> \<not> c < keys ! j) \<and>
     (addChild4_idx keys c nc idx < nc \<longrightarrow> c < keys ! addChild4_idx keys c nc idx)"
proof (induction keys c nc idx rule: addChild4_idx.induct)
  case (1 keys c nc idx)
  show ?case
  proof (cases "idx < nc \<and> \<not> c < keys ! idx")
    case True
    then have e: "addChild4_idx keys c nc idx = addChild4_idx keys c nc (idx + 1)"
      by (subst addChild4_idx.simps) simp
    from True have "idx + 1 \<le> nc" by simp
    from "1.IH" [OF _ _ this] True
    have ih: "idx + 1 \<le> addChild4_idx keys c nc (idx + 1)"
      "addChild4_idx keys c nc (idx + 1) \<le> nc"
      "\<forall>j. idx + 1 \<le> j \<and> j < addChild4_idx keys c nc (idx + 1) \<longrightarrow> \<not> c < keys ! j"
      "addChild4_idx keys c nc (idx + 1) < nc \<longrightarrow> c < keys ! addChild4_idx keys c nc (idx + 1)"
      by auto
    have "\<not> c < keys ! j" if "idx \<le> j" "j < addChild4_idx keys c nc (idx + 1)" for j
      using that ih(3) True by (cases "j = idx") auto
    with ih show ?thesis unfolding e by auto
  next
    case False
    then have e: "addChild4_idx keys c nc idx = idx"
      by (subst addChild4_idx.simps) auto
    from False "1.prems" show ?thesis unfolding e by auto
  qed
qed

lemma sorted_insert_at:
  fixes c :: "'a::linorder"
  assumes "sorted_wrt (<) ks" "c \<notin> set ks" "r \<le> length ks"
    and "\<forall>j<r. \<not> c < ks ! j" and "r < length ks \<longrightarrow> c < ks ! r"
  shows "sorted_wrt (<) (take r ks @ c # drop r ks)"
proof -
  have split: "sorted_wrt (<) (take r ks)" "sorted_wrt (<) (drop r ks)"
    using assms(1) by (simp_all add: sorted_wrt_take sorted_wrt_drop)
  have lo: "x < c" if "x \<in> set (take r ks)" for x
  proof -
    from that obtain j where j: "j < r" "j < length ks" "x = ks ! j"
      by (auto simp: in_set_conv_nth)
    with assms(4) have "\<not> c < x" by simp
    moreover from j assms(2) have "x \<noteq> c" by auto
    ultimately show ?thesis by simp
  qed
  have hi: "c < y" if "y \<in> set (drop r ks)" for y
  proof -
    from that obtain k where "k < length ks - r" "y = ks ! (r + k)"
      by (auto simp: in_set_conv_nth)
    then have k: "r + k < length ks" "y = ks ! (r + k)"
      by simp_all
    then have r: "r < length ks" by simp
    with assms(5) have c: "c < ks ! r" by simp
    show ?thesis
    proof (cases k)
      case 0
      with k c show ?thesis by simp
    next
      case (Suc k')
      with k have "r < r + k" "r + k < length ks" by simp_all
      with assms(1) have "ks ! r < ks ! (r + k)"
        by (rule sorted_wrt_nth_less)
      with c k show ?thesis by simp
    qed
  qed
  have cross: "x < y" if "x \<in> set (take r ks)" "y \<in> set (drop r ks)" for x y
    using lo [OF that(1)] hi [OF that(2)] by simp
  show ?thesis
    using split lo hi cross by (auto simp: sorted_wrt_append)
qed

lemma sorted_remove_at:
  assumes "sorted_wrt (<) ks"
  shows "sorted_wrt (<) (take pos ks @ drop (pos + 1) ks)"
proof -
  have cross: "\<forall>x\<in>set (take pos ks). \<forall>y\<in>set (drop pos ks). x < y"
    using assms sorted_wrt_append [of "(<)" "take pos ks" "drop pos ks"] by simp
  have "set (drop (pos + 1) ks) \<subseteq> set (drop pos ks)"
    using set_drop_subset_set_drop [of pos "pos + 1" ks] by simp
  moreover have "sorted_wrt (<) (drop (pos + 1) ks)" "sorted_wrt (<) (take pos ks)"
    using assms by (simp_all add: sorted_wrt_take sorted_wrt_drop)
  ultimately show ?thesis
    using cross by (auto simp: sorted_wrt_append)
qed

lemma fold_or_bit:
  fixes z :: "'a::len word"
  assumes "n \<le> LENGTH('a)"
  shows "bit (fold (\<lambda>i b. if P i then b OR push_bit i 1 else b) [0..<n] (0::'a word)) j
           \<longleftrightarrow> j < n \<and> P j"
  using assms
proof (induction n)
  case 0
  then show ?case by simp
next
  case (Suc n)
  then show ?case
    by (auto simp: bit_simps less_Suc_eq)
qed

lemma trailing_zeros_char:
  "length (takeWhile (\<lambda>i. \<not> P i) [0..<N]) \<le> N \<and>
   (\<forall>j < length (takeWhile (\<lambda>i. \<not> P i) [0..<N]). \<not> P j) \<and>
   (length (takeWhile (\<lambda>i. \<not> P i) [0..<N]) < N \<longrightarrow> P (length (takeWhile (\<lambda>i. \<not> P i) [0..<N])))"
proof -
  let ?t = "length (takeWhile (\<lambda>i. \<not> P i) [0..<N])"
  have le: "?t \<le> N"
    using length_takeWhile_le [of "\<lambda>i. \<not> P i" "[0..<N]"] by simp
  have a: "\<not> P j" if "j < ?t" for j
  proof -
    have "\<not> P ([0..<N] ! j)"
      using that by (rule nth_length_takeWhile [THEN [2] rev_notE] ) (metis takeWhile_nth nth_mem set_takeWhileD that)
    with that le show ?thesis by simp
  qed
  have b: "P ?t" if "?t < N"
    using nth_length_takeWhile [of "\<lambda>i. \<not> P i" "[0..<N]"] that by simp
  from le a b show ?thesis by blast
qed

lemma map_of_zip_first:
  "j < length ks \<Longrightarrow> length ks = length cs \<Longrightarrow> ks ! j = c \<Longrightarrow> \<forall>i<j. ks ! i \<noteq> c \<Longrightarrow>
     map_of (zip ks cs) c = Some (cs ! j)"
proof (induction ks arbitrary: cs j)
  case Nil
  then show ?case by simp
next
  case (Cons k ks)
  then obtain c' cs' where cs: "cs = c' # cs'" by (cases cs) auto
  show ?case
  proof (cases j)
    case 0
    with Cons.prems cs show ?thesis by simp
  next
    case (Suc j')
    with Cons.prems have "k \<noteq> c" by auto
    moreover have "map_of (zip ks cs') c = Some (cs' ! j')"
      using Cons.prems Suc cs by (intro Cons.IH) auto
    ultimately show ?thesis using cs Suc by simp
  qed
qed

lemma assoc_first:
  "j < length ks \<Longrightarrow> length ks = length cs \<Longrightarrow> ks ! j = c \<Longrightarrow> \<forall>i<j. ks ! i \<noteq> c \<Longrightarrow>
     assoc ks cs c = cs ! j"
  by (simp add: assoc_def map_of_zip_first)

lemma assoc_miss: "length ks = length cs \<Longrightarrow> c \<notin> set ks \<Longrightarrow> assoc ks cs c = None"
  by (simp add: assoc_def map_of_zip_is_None [THEN iffD2])

lemma assoc_nth:
  "distinct ks \<Longrightarrow> length ks = length cs \<Longrightarrow> j < length ks \<Longrightarrow> assoc ks cs (ks ! j) = cs ! j"
  by (simp add: assoc_def map_of_zip_nth)

lemma assoc_insert:
  assumes "length ks = length cs" "idx \<le> length ks" "c \<notin> set ks"
  shows "assoc (take idx ks @ c # drop idx ks) (take idx cs @ p # drop idx cs) b =
           (if b = c then p else assoc ks cs b)"
proof -
  have z: "zip (take idx ks @ c # drop idx ks) (take idx cs @ p # drop idx cs) =
           zip (take idx ks) (take idx cs) @ (c, p) # zip (drop idx ks) (drop idx cs)"
    using assms by (simp add: zip_append)
  have whole: "map_of (zip ks cs) = map_of (zip (drop idx ks) (drop idx cs)) ++ map_of (zip (take idx ks) (take idx cs))"
  proof -
    have "zip ks cs = zip (take idx ks @ drop idx ks) (take idx cs @ drop idx cs)" by simp
    also have "\<dots> = zip (take idx ks) (take idx cs) @ zip (drop idx ks) (drop idx cs)"
      using assms by (intro zip_append) simp
    finally show ?thesis by (simp add: map_of_append del: append_take_drop_id)
  qed
  have none: "map_of (zip (take idx ks) (take idx cs)) c = None"
    using assms map_of_zip_is_None [of "take idx ks" "take idx cs" c]
    by (auto dest: in_set_takeD)
  show ?thesis
  proof (cases "b = c")
    case True
    then show ?thesis
      unfolding assoc_def z by (simp add: map_of_append map_add_def none)
  next
    case False
    then show ?thesis
      unfolding assoc_def z whole by (simp add: map_of_append map_add_def split: option.splits)
  qed
qed

lemma assoc_remove:
  assumes "length ks = length cs" "pos < length ks" "distinct ks"
  shows "assoc (take pos ks @ drop (pos + 1) ks) (take pos cs @ drop (pos + 1) cs) b =
           (if b = ks ! pos then None else assoc ks cs b)"
proof -
  let ?ks' = "take pos ks @ drop (pos + 1) ks" and ?cs' = "take pos cs @ drop (pos + 1) cs"
  have ks: "ks = take pos ks @ ks ! pos # drop (pos + 1) ks"
    using assms by (simp add: id_take_nth_drop)
  have cs: "cs = take pos cs @ cs ! pos # drop (pos + 1) cs"
    using assms by (simp add: id_take_nth_drop)
  have len: "length ?ks' = length ?cs'" using assms by simp
  have notin: "ks ! pos \<notin> set ?ks'"
    using assms(3) by (subst (asm) ks) auto
  have "assoc ks cs b = assoc (take pos ?ks' @ ks ! pos # drop pos ?ks') (take pos ?cs' @ cs ! pos # drop pos ?cs') b"
    using assms by (subst ks, subst cs) (simp add: min_absorb2)
  also have "\<dots> = (if b = ks ! pos then cs ! pos else assoc ?ks' ?cs' b)"
    using len assms notin by (intro assoc_insert) simp_all
  finally have e: "assoc ks cs b = (if b = ks ! pos then cs ! pos else assoc ?ks' ?cs' b)" .
  show ?thesis
  proof (cases "b = ks ! pos")
    case True
    with notin len show ?thesis by (simp add: assoc_miss)
  next
    case False
    with e show ?thesis by simp
  qed
qed

lemma findChild4_loop_char:
  assumes "nc \<le> length keys" "i \<le> nc"
  shows "(\<exists>j. findChild4_loop keys c nc i = Inr (Some j) \<and> i \<le> j \<and> j < nc \<and> keys ! j = c \<and>
              (\<forall>k. i \<le> k \<and> k < j \<longrightarrow> keys ! k \<noteq> c)) \<or>
         (findChild4_loop keys c nc i = Inr None \<and> (\<forall>k. i \<le> k \<and> k < nc \<longrightarrow> keys ! k \<noteq> c))"
  using assms
proof (induction keys c nc i rule: findChild4_loop.induct)
  case (1 keys c nc i)
  show ?case
  proof (cases "i < nc")
    case False
    then have "findChild4_loop keys c nc i = Inr None"
      by (subst findChild4_loop.simps) simp
    with False show ?thesis by auto
  next
    case True
    with "1.prems" have inb: "\<not> length keys \<le> i" by simp
    show ?thesis
    proof (cases "keys ! i = c")
      case True
      with \<open>i < nc\<close> inb have "findChild4_loop keys c nc i = Inr (Some i)"
        by (subst findChild4_loop.simps) simp
      with True \<open>i < nc\<close> show ?thesis by auto
    next
      case False
      with \<open>i < nc\<close> inb
      have e: "findChild4_loop keys c nc i = findChild4_loop keys c nc (i + 1)"
        by (subst findChild4_loop.simps) simp
      from \<open>i < nc\<close> have "i + 1 \<le> nc" by simp
      from "1.IH" [OF \<open>i < nc\<close> inb False "1.prems"(1) this]
      show ?thesis
      proof
        assume "\<exists>j. findChild4_loop keys c nc (i + 1) = Inr (Some j) \<and> i + 1 \<le> j \<and> j < nc \<and>
                  keys ! j = c \<and> (\<forall>k. i + 1 \<le> k \<and> k < j \<longrightarrow> keys ! k \<noteq> c)"
        then obtain j where j: "findChild4_loop keys c nc (i + 1) = Inr (Some j)" "i + 1 \<le> j"
          "j < nc" "keys ! j = c" "\<forall>k. i + 1 \<le> k \<and> k < j \<longrightarrow> keys ! k \<noteq> c" by blast
        have "keys ! k \<noteq> c" if "i \<le> k" "k < j" for k
          using that j(5) False by (cases "k = i") auto
        with j show ?thesis unfolding e by auto
      next
        assume a: "findChild4_loop keys c nc (i + 1) = Inr None \<and>
                  (\<forall>k. i + 1 \<le> k \<and> k < nc \<longrightarrow> keys ! k \<noteq> c)"
        have "keys ! k \<noteq> c" if "i \<le> k" "k < nc" for k
          using that a False by (cases "k = i") auto
        with a show ?thesis unfolding e by auto
      qed
    qed
  qed
qed

lemma first_match_assoc:
  assumes "nc \<le> length keys" "nc \<le> length children"
    and "j < nc" "keys ! j = c" "\<forall>k<j. keys ! k \<noteq> c"
  shows "assoc (take nc keys) (take nc children) c = children ! j"
proof -
  have "assoc (take nc keys) (take nc children) c = take nc children ! j"
    using assms by (intro assoc_first) (simp_all add: min_absorb2)
  with assms show ?thesis by simp
qed

lemma no_match_assoc:
  assumes "nc \<le> length keys" "nc \<le> length children"
    and "\<forall>k<nc. keys ! k \<noteq> c"
  shows "assoc (take nc keys) (take nc children) c = None"
proof -
  have "c \<notin> set (take nc keys)"
    using assms by (auto simp: in_set_conv_nth)
  with assms show ?thesis by (intro assoc_miss) (simp_all add: min_absorb2)
qed

lemma lookup_Node4:
  assumes "unat (numChildren hdr) \<le> length keys" "unat (numChildren hdr) \<le> length children"
  shows "lookup (Node4 hdr keys children) c =
           assoc (take (unat (numChildren hdr)) keys) (take (unat (numChildren hdr)) children) c"
proof -
  let ?nc = "unat (numChildren hdr)"
  from findChild4_loop_char [OF assms(1) le0, of c]
  show ?thesis
  proof
    assume "\<exists>j. findChild4_loop keys c ?nc 0 = Inr (Some j) \<and> 0 \<le> j \<and> j < ?nc \<and> keys ! j = c \<and>
              (\<forall>k. 0 \<le> k \<and> k < j \<longrightarrow> keys ! k \<noteq> c)"
    then obtain j where j: "findChild4_loop keys c ?nc 0 = Inr (Some j)" "j < ?nc" "keys ! j = c"
      "\<forall>k<j. keys ! k \<noteq> c" by auto
    from first_match_assoc [OF assms j(2,3,4)] j(1) show ?thesis
      by (simp add: lookup_def findChild_def)
  next
    assume "findChild4_loop keys c ?nc 0 = Inr None \<and> (\<forall>k. 0 \<le> k \<and> k < ?nc \<longrightarrow> keys ! k \<noteq> c)"
    then have a: "findChild4_loop keys c ?nc 0 = Inr None" "\<forall>k<?nc. keys ! k \<noteq> c" by auto
    from no_match_assoc [OF assms a(2)] a(1) show ?thesis
      by (simp add: lookup_def findChild_def)
  qed
qed

lemma push_bit_1_minus_1: "push_bit n (1 :: 'a::len word) - 1 = mask n"
  by (simp add: mask_eq_exp_minus_1 push_bit_of_1)

lemma word_neq_0_bit: "(w :: 'a::len word) \<noteq> 0 \<longleftrightarrow> (\<exists>j<LENGTH('a). bit w j)"
  by (auto simp: bit_eq_iff bit_simps dest: bit_imp_le_length)

lemma masked_first:
  fixes w :: "'a::len word"
  assumes bits: "\<And>j. bit w j \<longleftrightarrow> j < N \<and> j < nc \<and> P j" and N: "N = LENGTH('a)"
  shows "(w \<noteq> 0 \<longrightarrow> length (takeWhile (\<lambda>i. \<not> bit w i) [0..<N]) < nc \<and>
            length (takeWhile (\<lambda>i. \<not> bit w i) [0..<N]) < N \<and>
            P (length (takeWhile (\<lambda>i. \<not> bit w i) [0..<N])) \<and>
            (\<forall>j < length (takeWhile (\<lambda>i. \<not> bit w i) [0..<N]). \<not> P j)) \<and>
         (w = 0 \<longrightarrow> (\<forall>j. j < N \<and> j < nc \<longrightarrow> \<not> P j))"
proof -
  let ?t = "length (takeWhile (\<lambda>i. \<not> bit w i) [0..<N])"
  from trailing_zeros_char [of "bit w" N]
  have t: "?t \<le> N" "\<forall>j<?t. \<not> bit w j" "?t < N \<longrightarrow> bit w ?t" by auto
  have nz: "?t < nc \<and> ?t < N \<and> P ?t \<and> (\<forall>j<?t. \<not> P j)" if "w \<noteq> 0"
  proof -
    from that obtain j where j: "j < N" "bit w j"
      unfolding word_neq_0_bit N by blast
    with t(2) have "\<not> j < ?t" by blast
    with j have lt: "?t < N" by simp
    with t(3) have "bit w ?t" by simp
    with bits have p: "?t < nc" "P ?t" by auto
    have "\<not> P k" if "k < ?t" for k
      using that t(2) bits [of k] p(1) lt by auto
    with lt p show ?thesis by blast
  qed
  have z: "\<not> P j" if "w = 0" "j < N" "j < nc" for j
    using that bits [of j] by simp
  from nz z show ?thesis by blast
qed

lemma findChild16_bits:
  assumes "nc \<le> 16"
  shows "bit (findChild16_bitfield keys c AND ucast (push_bit nc (1 :: 64 word) - 1)) j
           \<longleftrightarrow> j < 16 \<and> j < nc \<and> keys ! j = c"
  using assms unfolding push_bit_1_minus_1
  by (auto simp: findChild16_bitfield_def bit_simps fold_or_bit)

lemma addChild16_bits:
  assumes "nc \<le> 16"
  shows "bit (addChild16_bitfield keys c AND (push_bit nc (1 :: 32 word) - 1)) j
           \<longleftrightarrow> j < 32 \<and> j < nc \<and> c < keys ! j"
  using assms unfolding push_bit_1_minus_1
  by (auto simp: addChild16_bitfield_def bit_simps fold_or_bit)

lemma lookup_Node16:
  assumes "unat (numChildren hdr) \<le> length keys" "unat (numChildren hdr) \<le> length children"
    and "unat (numChildren hdr) \<le> 16"
  shows "lookup (Node16 hdr keys children) c =
           assoc (take (unat (numChildren hdr)) keys) (take (unat (numChildren hdr)) children) c"
proof -
  let ?nc = "unat (numChildren hdr)"
  define w where "w = findChild16_bitfield keys c AND ucast (push_bit ?nc (1 :: 64 word) - 1)"
  have f: "findChild (Node16 hdr keys children) c =
             (if w \<noteq> 0 then Inr (Some (TrailingZeros16 w)) else Inr None)"
    by (simp add: findChild_def w_def Let_def)
  have bits: "bit w j \<longleftrightarrow> j < 16 \<and> j < ?nc \<and> keys ! j = c" for j
    unfolding w_def using findChild16_bits [OF assms(3)] by blast
  from masked_first [of w 16 ?nc "\<lambda>j. keys ! j = c", OF bits]
  have m: "w \<noteq> 0 \<longrightarrow> TrailingZeros16 w < ?nc \<and> keys ! TrailingZeros16 w = c \<and>
             (\<forall>j < TrailingZeros16 w. keys ! j \<noteq> c)"
    "w = 0 \<longrightarrow> (\<forall>j. j < 16 \<and> j < ?nc \<longrightarrow> keys ! j \<noteq> c)"
    by (simp_all add: TrailingZeros16_def)
  show ?thesis
  proof (cases "w = 0")
    case True
    with m(2) assms(3) have "\<forall>k<?nc. keys ! k \<noteq> c" by auto
    from no_match_assoc [OF assms(1,2) this] True show ?thesis
      by (simp add: lookup_def f)
  next
    case False
    with m(1) have t: "TrailingZeros16 w < ?nc" "keys ! TrailingZeros16 w = c"
      "\<forall>j < TrailingZeros16 w. keys ! j \<noteq> c" by auto
    from first_match_assoc [OF assms(1,2) t] False show ?thesis
      by (simp add: lookup_def f)
  qed
qed

lemma lookup_Node48:
  assumes "keys ! unat c \<noteq> 0 \<longrightarrow> unat (keys ! unat c - 1) < length children"
  shows "lookup (Node48 hdr keys children) c =
           (if keys ! unat c \<noteq> 0 then children ! unat (keys ! unat c - 1) else None)"
  using assms by (auto simp add: lookup_def findChild_def Let_def not_le)

lemma lookup_Node256: "lookup (Node256 hdr children) c = children ! unat c"
  by (simp add: lookup_def findChild_def)

lemma addChild16_idx_char:
  assumes "nc \<le> 16"
    and w_def: "w = addChild16_bitfield keys c AND (push_bit nc (1 :: 32 word) - 1)"
    and idx_def: "idx = (if w \<noteq> 0 then TrailingZeros32 w else nc)"
  shows "idx \<le> nc \<and> (\<forall>j<idx. \<not> c < keys ! j) \<and> (idx < nc \<longrightarrow> c < keys ! idx)"
proof -
  have bits: "bit w j \<longleftrightarrow> j < 32 \<and> j < nc \<and> c < keys ! j" for j
    unfolding w_def using addChild16_bits [OF assms(1)] by blast
  from masked_first [of w 32 nc "\<lambda>j. c < keys ! j", OF bits]
  have m: "w \<noteq> 0 \<longrightarrow> TrailingZeros32 w < nc \<and> c < keys ! TrailingZeros32 w \<and>
             (\<forall>j < TrailingZeros32 w. \<not> c < keys ! j)"
    "w = 0 \<longrightarrow> (\<forall>j. j < 32 \<and> j < nc \<longrightarrow> \<not> c < keys ! j)"
    by (simp_all add: TrailingZeros32_def)
  show ?thesis
  proof (cases "w = 0")
    case True
    with m(2) assms(1) show ?thesis by (auto simp: idx_def)
  next
    case False
    with m(1) show ?thesis by (auto simp: idx_def)
  qed
qed

lemma unat_inc8: "unat (x :: 8 word) < 255 \<Longrightarrow> unat (x + 1) = unat x + 1"
  by (simp add: unat_word_ariths)

lemma unat_dec8: "(x :: 8 word) \<noteq> 0 \<Longrightarrow> unat (x - 1) = unat x - 1"
  by (simp add: unat_minus_one)

lemma set_take_un_drop: "set (take i xs) \<union> set (drop i xs) = set xs"
  by (metis append_take_drop_id set_append)

lemma set_insert_at: "set (take i xs @ v # drop i xs) = insert v (set xs)"
  using set_take_un_drop [of i xs] by auto

lemma distinct_insert_at:
  assumes "distinct xs" "v \<notin> set xs"
  shows "distinct (take i xs @ v # drop i xs)"
proof -
  have "distinct (take i xs @ drop i xs)" using assms(1) by simp
  moreover have "v \<notin> set (take i xs)" "v \<notin> set (drop i xs)"
    using assms(2) by (auto dest: in_set_takeD in_set_dropD)
  ultimately show ?thesis by (simp del: append_take_drop_id)
qed

lemma small_insert:
  fixes hdr :: header
  assumes wf: "wf_small cap hdr keys children"
    and lt: "unat (numChildren hdr) < cap" and cap: "cap \<le> 16"
    and idx: "idx \<le> unat (numChildren hdr)" "\<forall>j<idx. \<not> c < keys ! j"
             "idx < unat (numChildren hdr) \<longrightarrow> c < keys ! idx"
    and absent: "c \<notin> set (take (unat (numChildren hdr)) keys)"
    and fresh: "Some child \<notin> set (take (unat (numChildren hdr)) children)"
  shows "wf_small cap (hdr\<lparr>numChildren := numChildren hdr + 1\<rparr>)
           ((shift_right keys idx (unat (numChildren hdr) - idx))[idx := c])
           ((shift_right children idx (unat (numChildren hdr) - idx))[idx := Some child])"
    and "assoc (take (unat (numChildren hdr + 1))
                  ((shift_right keys idx (unat (numChildren hdr) - idx))[idx := c]))
               (take (unat (numChildren hdr + 1))
                  ((shift_right children idx (unat (numChildren hdr) - idx))[idx := Some child])) b
           = (if b = c then Some child
              else assoc (take (unat (numChildren hdr)) keys) (take (unat (numChildren hdr)) children) b)"
    and "set ((shift_right children idx (unat (numChildren hdr) - idx))[idx := Some child])
           \<subseteq> insert (Some child) (set children)"
proof -
  let ?nc = "unat (numChildren hdr)"
  let ?ks = "take ?nc keys" and ?cs = "take ?nc children"
  let ?keys' = "(shift_right keys idx (?nc - idx))[idx := c]"
  let ?children' = "(shift_right children idx (?nc - idx))[idx := Some child]"
  from wf have len: "length keys = cap" "length children = cap" and nccap: "?nc \<le> cap"
    and srt: "sorted_wrt (<) ?ks" and nonnil: "None \<notin> set ?cs" and dist: "distinct ?cs"
    by (simp_all add: wf_small_def)
  have nc1: "unat (numChildren hdr + 1) = ?nc + 1"
    using lt cap by (intro unat_inc8) simp
  have ncl: "?nc < length keys" "?nc < length children" using lt len by simp_all
  have k': "?keys' = take idx keys @ c # take (?nc - idx) (drop idx keys) @ drop (?nc + 1) keys"
    using idx(1) ncl(1) by (rule shift_right_update)
  have c': "?children' = take idx children @ Some child # take (?nc - idx) (drop idx children) @ drop (?nc + 1) children"
    using idx(1) ncl(2) by (rule shift_right_update)
  have lk: "length ?keys' = cap" "length ?children' = cap"
    using len by (simp_all add: shift_right_def)
  have tk: "take (?nc + 1) ?keys' = take idx ?ks @ c # drop idx ?ks"
    unfolding k' using idx(1) ncl(1) by (rule ins_take)
  have tc: "take (?nc + 1) ?children' = take idx ?cs @ Some child # drop idx ?cs"
    unfolding c' using idx(1) ncl(2) by (rule ins_take)
  have lks: "length ?ks = ?nc" "length ?cs = ?nc" using ncl by simp_all
  have s': "sorted_wrt (<) (take idx ?ks @ c # drop idx ?ks)"
  proof (rule sorted_insert_at [OF srt absent])
    show "idx \<le> length ?ks" using idx(1) lks by simp
    show "\<forall>j<idx. \<not> c < ?ks ! j" using idx(1,2) by simp
    show "idx < length ?ks \<longrightarrow> c < ?ks ! idx" using idx(3) lks by simp
  qed
  have set': "set (take idx ?cs @ Some child # drop idx ?cs) = insert (Some child) (set ?cs)"
    by (rule set_insert_at)
  have d': "distinct (take idx ?cs @ Some child # drop idx ?cs)"
    using dist fresh by (rule distinct_insert_at)
  show "wf_small cap (hdr\<lparr>numChildren := numChildren hdr + 1\<rparr>) ?keys' ?children'"
    unfolding wf_small_def using lk lt nc1 tk tc s' d' set' nonnil by simp
  have "assoc (take idx ?ks @ c # drop idx ?ks) (take idx ?cs @ Some child # drop idx ?cs) b =
          (if b = c then Some child else assoc ?ks ?cs b)"
    using lks idx(1) absent by (intro assoc_insert) simp_all
  then show "assoc (take (unat (numChildren hdr + 1)) ?keys') (take (unat (numChildren hdr + 1)) ?children') b
           = (if b = c then Some child else assoc ?ks ?cs b)"
    unfolding nc1 tk tc .
  show "set ?children' \<subseteq> insert (Some child) (set children)"
    unfolding c' by (auto dest: in_set_takeD in_set_dropD)
qed

lemma filter_update_split:
  assumes "i < length xs"
  shows "filter P xs = filter P (take i xs) @ (if P (xs ! i) then [xs ! i] else []) @ filter P (drop (Suc i) xs)"
    and "filter P (xs[i := v]) = filter P (take i xs) @ (if P v then [v] else []) @ filter P (drop (Suc i) xs)"
proof -
  have "filter P xs = filter P (take i xs @ xs ! i # drop (Suc i) xs)"
    using assms by (simp add: id_take_nth_drop [symmetric])
  then show "filter P xs = filter P (take i xs) @ (if P (xs ! i) then [xs ! i] else []) @ filter P (drop (Suc i) xs)"
    by simp
  show "filter P (xs[i := v]) = filter P (take i xs) @ (if P v then [v] else []) @ filter P (drop (Suc i) xs)"
    using assms by (simp add: upd_conv_take_nth_drop)
qed

lemma filter_update_add:
  assumes "i < length xs" "\<not> P (xs ! i)" "P v"
  shows "length (filter P (xs[i := v])) = length (filter P xs) + 1"
  using assms filter_update_split [OF assms(1), of P] by simp

lemma filter_update_del:
  assumes "i < length xs" "P (xs ! i)" "\<not> P v"
  shows "length (filter P (xs[i := v])) + 1 = length (filter P xs)"
  using assms filter_update_split [OF assms(1), of P] by simp

lemma distinct_filter_update_del:
  assumes "distinct (filter P xs)" "\<not> P v"
  shows "distinct (filter P (xs[i := v]))"
proof (cases "i < length xs")
  case True
  with assms filter_update_split [OF True, of P] show ?thesis
    by (auto split: if_splits)
next
  case False
  then have "xs[i := v] = xs" by (simp add: list_update_beyond not_less)
  with assms(1) show ?thesis by simp
qed

lemma distinct_filter_update_add:
  assumes "distinct (filter P xs)" "v \<notin> set xs"
  shows "distinct (filter P (xs[i := v]))"
proof (cases "i < length xs")
  case True
  have "v \<notin> set (take i xs)" "v \<notin> set (drop (Suc i) xs)"
    using assms(2) by (auto dest: in_set_takeD in_set_dropD)
  with assms(1) filter_update_split [OF True, of P] show ?thesis
    by (auto split: if_splits)
next
  case False
  then have "xs[i := v] = xs" by (simp add: list_update_beyond not_less)
  with assms(1) show ?thesis by simp
qed

lemma distinct_filter_nth:
  assumes "distinct (filter P xs)" "i < length xs" "j < length xs" "P (xs ! i)" "xs ! i = xs ! j"
  shows "i = j"
  using assms
proof (induction xs arbitrary: i j)
  case Nil
  then show ?case by simp
next
  case (Cons x xs)
  show ?case
  proof (cases i)
    case 0
    show ?thesis
    proof (cases j)
      case 0
      with \<open>i = 0\<close> show ?thesis by simp
    next
      case (Suc j')
      with 0 Cons.prems have "P x" "x = xs ! j'" "j' < length xs" by auto
      with Cons.prems(1) show ?thesis by auto
    qed
  next
    case (Suc i')
    show ?thesis
    proof (cases j)
      case 0
      with Suc Cons.prems have "P x" "x = xs ! i'" "i' < length xs" by auto
      with Cons.prems(1) show ?thesis by auto
    next
      case (Suc j')
      from Cons.prems(1) have "distinct (filter P xs)" by (auto split: if_splits)
      with Cons.prems \<open>i = Suc i'\<close> Suc have "i' = j'"
        by (intro Cons.IH) auto
      with \<open>i = Suc i'\<close> Suc show ?thesis by simp
    qed
  qed
qed

lemma filter_short_ex:
  assumes "length (filter P xs) < length xs"
  shows "\<exists>j<length xs. \<not> P (xs ! j)"
proof (rule ccontr)
  assume "\<not> (\<exists>j<length xs. \<not> P (xs ! j))"
  then have "\<forall>x\<in>set xs. P x" by (auto simp: in_set_conv_nth)
  then have "filter P xs = xs" by simp
  with assms show False by simp
qed

lemma addChild48_pos_char:
  assumes "i \<le> j" "j < length children" "children ! j = None"
  shows "\<exists>pos. addChild48_pos children i = Inr pos \<and> i \<le> pos \<and> pos < length children \<and>
           children ! pos = None \<and> (\<forall>k. i \<le> k \<and> k < pos \<longrightarrow> children ! k \<noteq> None)"
  using assms
proof (induction children i rule: addChild48_pos.induct)
  case (1 children pos)
  from "1.prems" have inb: "\<not> length children \<le> pos" by simp
  show ?case
  proof (cases "children ! pos = None")
    case True
    with inb have "addChild48_pos children pos = Inr pos"
      by (subst addChild48_pos.simps) simp
    with True inb show ?thesis by auto
  next
    case False
    with inb have e: "addChild48_pos children pos = addChild48_pos children (pos + 1)"
      by (subst addChild48_pos.simps) simp
    from False "1.prems" have "pos + 1 \<le> j" by (cases "pos = j") auto
    from "1.IH" [OF inb False this "1.prems"(2,3)]
    obtain p where p: "addChild48_pos children (pos + 1) = Inr p" "pos + 1 \<le> p"
      "p < length children" "children ! p = None"
      "\<forall>k. pos + 1 \<le> k \<and> k < p \<longrightarrow> children ! k \<noteq> None" by blast
    have "children ! k \<noteq> None" if "pos \<le> k" "k < p" for k
      using that p(5) False by (cases "k = pos") auto
    with p show ?thesis unfolding e by auto
  qed
qed

lemma unat_byte_less: "unat (c :: byte) < 256"
  using unsigned_less [of c, where 'a = nat] by simp

lemma unat_of_nat_byte: "n < 256 \<Longrightarrow> unat (of_nat n :: byte) = n"
  by (simp add: unat_of_nat)

lemma wf48_slot:
  assumes "wf48 hdr keys children" "b < 256" "keys ! b \<noteq> 0"
  shows "unat (keys ! b - 1) = unat (keys ! b) - 1" "unat (keys ! b - 1) < 48"
    "children ! unat (keys ! b - 1) \<noteq> None" "0 < unat (keys ! b)" "unat (keys ! b) \<le> 48"
proof -
  from assms have m: "keys ! b \<in> set keys" by (simp add: wf48_def)
  show e: "unat (keys ! b - 1) = unat (keys ! b) - 1"
    using assms(3) by (rule unat_dec8)
  show p: "0 < unat (keys ! b)" using assms(3) by (simp add: unat_gt_0)
  from assms(1,3) m show le: "unat (keys ! b) \<le> 48"
    and "children ! unat (keys ! b - 1) \<noteq> None"
    unfolding e by (auto simp: wf48_def)
  from p le show "unat (keys ! b - 1) < 48" unfolding e by simp
qed

lemma lookup_wf48:
  assumes "wf48 hdr keys children"
  shows "lookup (Node48 hdr keys children) c =
           (if keys ! unat c \<noteq> 0 then children ! unat (keys ! unat c - 1) else None)"
proof (rule lookup_Node48)
  show "keys ! unat c \<noteq> 0 \<longrightarrow> unat (keys ! unat c - 1) < length children"
    using wf48_slot(2) [OF assms unat_byte_less] assms by (simp add: wf48_def)
qed

lemma lookup_wf48_None:
  assumes "wf48 hdr keys children"
  shows "lookup (Node48 hdr keys children) c = None \<longleftrightarrow> keys ! unat c = 0"
  using wf48_slot(3) [OF assms unat_byte_less, of c] by (auto simp: lookup_wf48 [OF assms])

section \<open>Adding a child: the steps\<close>

lemma deref_Some: "deref h a = Some n \<longleftrightarrow> a < length h \<and> h ! a = n"
  by (auto simp: deref_def)

lemma nodes_put [simp]: "nodes (put st a n) = (nodes st)[a := n]"
  by (simp add: put_def)

lemma ref_put [simp]: "ref (put st a n) = ref st"
  by (simp add: put_def)

lemma assoc_None_iff:
  assumes "length ks = length cs" "None \<notin> set cs"
  shows "assoc ks cs c = None \<longleftrightarrow> c \<notin> set ks"
proof
  assume a: "assoc ks cs c = None"
  show "c \<notin> set ks"
  proof
    assume "c \<in> set ks"
    then have "map_of (zip ks cs) c \<noteq> None"
      using assms(1) by (simp add: map_of_zip_is_None)
    then obtain y where y: "map_of (zip ks cs) c = Some y"
      by blast
    then have "y \<in> set cs"
      by (auto dest!: map_of_SomeD set_zip_rightD)
    with assms(2) have "y \<noteq> None" by (cases y) auto
    with a y show False by (simp add: assoc_def)
  qed
next
  assume "c \<notin> set ks"
  with assms(1) show "assoc ks cs c = None" by (rule assoc_miss)
qed

lemma wf_small_absent:
  assumes "wf_small cap hdr keys children"
  shows "assoc (take (unat (numChildren hdr)) keys) (take (unat (numChildren hdr)) children) c = None
           \<longleftrightarrow> c \<notin> set (take (unat (numChildren hdr)) keys)"
  using assms by (intro assoc_None_iff) (simp_all add: wf_small_def min_absorb2)

lemma lookup_small4:
  assumes "wf_small 4 hdr keys children"
  shows "lookup (Node4 hdr keys children) c =
           assoc (take (unat (numChildren hdr)) keys) (take (unat (numChildren hdr)) children) c"
  using assms by (intro lookup_Node4) (simp_all add: wf_small_def)

lemma lookup_small16:
  assumes "wf_small 16 hdr keys children"
  shows "lookup (Node16 hdr keys children) c =
           assoc (take (unat (numChildren hdr)) keys) (take (unat (numChildren hdr)) children) c"
  using assms by (intro lookup_Node16) (simp_all add: wf_small_def)

lemma shift_right_zero: "shift_right xs i 0 = xs"
  by (simp add: shift_right_def copy_go_def)

lemma addChild4_inplace:
  assumes d: "deref (nodes st) n = Some (Node4 hdr keys children)"
    and wf: "wf_small 4 hdr keys children"
    and lt: "unat (numChildren hdr) < 4"
    and absent: "lookup (Node4 hdr keys children) c = None"
    and fresh: "Some child \<notin> set (take (unat (numChildren hdr)) children)"
  shows "\<exists>keys' children'.
           addChild4 M st n c child =
             Inr (put st n (Node4 (hdr\<lparr>numChildren := numChildren hdr + 1\<rparr>) keys' children')) \<and>
           wf_small 4 (hdr\<lparr>numChildren := numChildren hdr + 1\<rparr>) keys' children' \<and>
           set children' \<subseteq> insert (Some child) (set children) \<and>
           (\<forall>b. lookup (Node4 (hdr\<lparr>numChildren := numChildren hdr + 1\<rparr>) keys' children') b =
                  (if b = c then Some child else lookup (Node4 hdr keys children) b))"
proof -
  let ?nc = "unat (numChildren hdr)"
  let ?hdr' = "hdr\<lparr>numChildren := numChildren hdr + 1\<rparr>"
  define idx where "idx = addChild4_idx keys c ?nc 0"
  let ?keys' = "(shift_right keys idx (?nc - idx))[idx := c]"
  let ?children' = "(shift_right children idx (?nc - idx))[idx := Some child]"
  have lt4: "numChildren hdr < 4"
    using lt by (simp add: word_less_nat_alt)
  have ab: "c \<notin> set (take ?nc keys)"
    using absent wf by (simp add: lookup_small4 wf_small_absent)
  have idx: "idx \<le> ?nc" "\<forall>j<idx. \<not> c < keys ! j" "idx < ?nc \<longrightarrow> c < keys ! idx"
    using addChild4_idx_char [of 0 ?nc keys c] by (auto simp: idx_def)
  have wf': "wf_small 4 ?hdr' ?keys' ?children'"
    using wf lt _ idx ab fresh by (rule small_insert(1)) simp
  have as: "assoc (take (unat (numChildren hdr + 1)) ?keys') (take (unat (numChildren hdr + 1)) ?children') b
           = (if b = c then Some child else assoc (take ?nc keys) (take ?nc children) b)" for b
    using wf lt _ idx ab fresh by (rule small_insert(2)) simp
  have sub: "set ?children' \<subseteq> insert (Some child) (set children)"
    using wf lt _ idx ab fresh by (rule small_insert(3)) simp
  have run: "addChild4 M st n c child = Inr (put st n (Node4 ?hdr' ?keys' ?children'))"
    using d lt4 by (simp add: addChild4_def Let_def idx_def)
  have "lookup (Node4 ?hdr' ?keys' ?children') b =
          (if b = c then Some child else lookup (Node4 hdr keys children) b)" for b
  proof -
    have "lookup (Node4 ?hdr' ?keys' ?children') b =
            assoc (take (unat (numChildren hdr + 1)) ?keys')
                  (take (unat (numChildren hdr + 1)) ?children') b"
      using lookup_small4 [OF wf', of b] by simp
    also have "\<dots> = (if b = c then Some child
                       else assoc (take ?nc keys) (take ?nc children) b)"
      by (rule as)
    also have "\<dots> = (if b = c then Some child else lookup (Node4 hdr keys children) b)"
      by (simp add: lookup_small4 [OF wf])
    finally show ?thesis .
  qed
  with run wf' sub show ?thesis by blast
qed

lemma addChild16_inplace:
  assumes d: "deref (nodes st) n = Some (Node16 hdr keys children)"
    and wf: "wf_small 16 hdr keys children"
    and lt: "unat (numChildren hdr) < 16"
    and absent: "lookup (Node16 hdr keys children) c = None"
    and fresh: "Some child \<notin> set (take (unat (numChildren hdr)) children)"
  shows "\<exists>keys' children'.
           addChild16 M st n c child =
             Inr (put st n (Node16 (hdr\<lparr>numChildren := numChildren hdr + 1\<rparr>) keys' children')) \<and>
           wf_small 16 (hdr\<lparr>numChildren := numChildren hdr + 1\<rparr>) keys' children' \<and>
           set children' \<subseteq> insert (Some child) (set children) \<and>
           (\<forall>b. lookup (Node16 (hdr\<lparr>numChildren := numChildren hdr + 1\<rparr>) keys' children') b =
                  (if b = c then Some child else lookup (Node16 hdr keys children) b))"
proof -
  let ?nc = "unat (numChildren hdr)"
  let ?hdr' = "hdr\<lparr>numChildren := numChildren hdr + 1\<rparr>"
  define w where "w = addChild16_bitfield keys c AND (push_bit ?nc (1 :: 32 word) - 1)"
  define idx where "idx = (if w \<noteq> 0 then TrailingZeros32 w else ?nc)"
  let ?keys' = "(shift_right keys idx (?nc - idx))[idx := c]"
  let ?children' = "(shift_right children idx (?nc - idx))[idx := Some child]"
  have lt16: "numChildren hdr < 16"
    using lt by (simp add: word_less_nat_alt)
  have ab: "c \<notin> set (take ?nc keys)"
    using absent wf by (simp add: lookup_small16 wf_small_absent)
  have idx: "idx \<le> ?nc" "\<forall>j<idx. \<not> c < keys ! j" "idx < ?nc \<longrightarrow> c < keys ! idx"
    using addChild16_idx_char [OF _ w_def idx_def] lt by auto
  have wf': "wf_small 16 ?hdr' ?keys' ?children'"
    using wf lt _ idx ab fresh by (rule small_insert(1)) simp
  have as: "assoc (take (unat (numChildren hdr + 1)) ?keys') (take (unat (numChildren hdr + 1)) ?children') b
           = (if b = c then Some child else assoc (take ?nc keys) (take ?nc children) b)" for b
    using wf lt _ idx ab fresh by (rule small_insert(2)) simp
  have sub: "set ?children' \<subseteq> insert (Some child) (set children)"
    using wf lt _ idx ab fresh by (rule small_insert(3)) simp
  have nc: "idx = ?nc \<Longrightarrow> ?keys' = keys[?nc := c] \<and> ?children' = children[?nc := Some child]"
    by (simp add: shift_right_zero)
  have unf: "addChild16 M st n c child =
      (case (if w \<noteq> 0 then (TrailingZeros32 w, shift_right keys (TrailingZeros32 w) (?nc - TrailingZeros32 w),
                                shift_right children (TrailingZeros32 w) (?nc - TrailingZeros32 w))
             else (?nc, keys, children)) of
         (idx, keys, children) \<Rightarrow>
            Inr (put st n (Node16 ?hdr' (keys[idx := c]) (children[idx := Some child]))))"
    by (simp only: addChild16_def d option.case node.case lt16 if_True Let_def w_def [symmetric])
  have run: "addChild16 M st n c child = Inr (put st n (Node16 ?hdr' ?keys' ?children'))"
  proof (cases "w = 0")
    case True
    then have "idx = ?nc" by (simp add: idx_def)
    with nc True show ?thesis
      unfolding unf by simp
  next
    case False
    then have "idx = TrailingZeros32 w" by (simp add: idx_def)
    with False show ?thesis
      unfolding unf by simp
  qed
  have "lookup (Node16 ?hdr' ?keys' ?children') b =
          (if b = c then Some child else lookup (Node16 hdr keys children) b)" for b
  proof -
    have "lookup (Node16 ?hdr' ?keys' ?children') b =
            assoc (take (unat (numChildren hdr + 1)) ?keys')
                  (take (unat (numChildren hdr + 1)) ?children') b"
      using lookup_small16 [OF wf', of b] by simp
    also have "\<dots> = (if b = c then Some child
                       else assoc (take ?nc keys) (take ?nc children) b)"
      by (rule as)
    also have "\<dots> = (if b = c then Some child else lookup (Node16 hdr keys children) b)"
      by (simp add: lookup_small16 [OF wf])
    finally show ?thesis .
  qed
  with run wf' sub show ?thesis by blast
qed

lemma put_new: "put \<lparr>nodes = h @ [x], ref = r\<rparr> (length h) y = \<lparr>nodes = h @ [y], ref = r\<rparr>"
  by (simp add: put_def)

lemma deref_new: "deref (h @ [x]) (length h) = Some x"
  by (simp add: deref_def)

lemma lookup_wf256_None: "lookup (Node256 hdr children) c = None \<longleftrightarrow> children ! unat c = None"
  by (simp add: lookup_Node256)

lemma addChild256_step:
  assumes d: "deref (nodes st) n = Some (Node256 hdr children)"
    and wf: "wf256 hdr children"
    and lt: "unat (numChildren hdr) < 255"
    and absent: "lookup (Node256 hdr children) c = None"
    and fresh: "Some child \<notin> set children"
  shows "addChild256 st n c child =
           Inr (put st n (Node256 (hdr\<lparr>numChildren := numChildren hdr + 1\<rparr>)
                            (children[unat c := Some child])))"
    and "wf256 (hdr\<lparr>numChildren := numChildren hdr + 1\<rparr>) (children[unat c := Some child])"
    and "lookup (Node256 (hdr\<lparr>numChildren := numChildren hdr + 1\<rparr>)
                   (children[unat c := Some child])) b =
           (if b = c then Some child else lookup (Node256 hdr children) b)"
proof -
  from wf have len: "length children = 256"
    and cnt: "unat (numChildren hdr) = length (filter (\<lambda>p. p \<noteq> None) children)"
    and dist: "distinct (filter (\<lambda>p. p \<noteq> None) children)"
    by (simp_all add: wf256_def)
  have c: "unat c < length children" using len unat_byte_less [of c] by simp
  have nil: "children ! unat c = None" using absent by (simp add: lookup_Node256)
  show "addChild256 st n c child =
           Inr (put st n (Node256 (hdr\<lparr>numChildren := numChildren hdr + 1\<rparr>)
                            (children[unat c := Some child])))"
    using d by (simp add: addChild256_def Let_def)
  have "length (filter (\<lambda>p. p \<noteq> None) (children[unat c := Some child])) =
          length (filter (\<lambda>p. p \<noteq> None) children) + 1"
    using c nil by (intro filter_update_add) simp_all
  moreover have "distinct (filter (\<lambda>p. p \<noteq> None) (children[unat c := Some child]))"
    using dist fresh by (rule distinct_filter_update_add)
  ultimately show "wf256 (hdr\<lparr>numChildren := numChildren hdr + 1\<rparr>) (children[unat c := Some child])"
    using len cnt unat_inc8 [OF lt] by (simp add: wf256_def)
  show "lookup (Node256 (hdr\<lparr>numChildren := numChildren hdr + 1\<rparr>)
                   (children[unat c := Some child])) b =
           (if b = c then Some child else lookup (Node256 hdr children) b)"
    using c by (auto simp: lookup_Node256 nth_list_update word_unat_eq_iff)
qed

lemma addChild48_inplace:
  assumes d: "deref (nodes st) n = Some (Node48 hdr keys children)"
    and wf: "wf48 hdr keys children"
    and lt: "unat (numChildren hdr) < 48"
    and absent: "lookup (Node48 hdr keys children) c = None"
    and fresh: "Some child \<notin> set children"
  shows "\<exists>keys' children'.
           addChild48 M st n c child =
             Inr (put st n (Node48 (hdr\<lparr>numChildren := numChildren hdr + 1\<rparr>) keys' children')) \<and>
           wf48 (hdr\<lparr>numChildren := numChildren hdr + 1\<rparr>) keys' children' \<and>
           set children' \<subseteq> insert (Some child) (set children) \<and>
           (\<forall>b. lookup (Node48 (hdr\<lparr>numChildren := numChildren hdr + 1\<rparr>) keys' children') b =
                  (if b = c then Some child else lookup (Node48 hdr keys children) b))"
proof -
  let ?hdr' = "hdr\<lparr>numChildren := numChildren hdr + 1\<rparr>"
  let ?nz = "\<lambda>k::byte. k \<noteq> 0" and ?nn = "\<lambda>p::ptr. p \<noteq> None"
  from wf have lk: "length keys = 256" and lc: "length children = 48"
    and cntk: "unat (numChildren hdr) = length (filter ?nz keys)"
    and cntc: "unat (numChildren hdr) = length (filter ?nn children)"
    and cons: "\<forall>k \<in> set keys. k \<noteq> 0 \<longrightarrow> unat k \<le> 48 \<and> children ! (unat k - 1) \<noteq> None"
    and dk: "distinct (filter ?nz keys)" and dc: "distinct (filter ?nn children)"
    by (simp_all add: wf48_def)
  have lt48: "numChildren hdr < 48" using lt by (simp add: word_less_nat_alt)
  have c: "unat c < length keys" using lk unat_byte_less [of c] by simp
  have kc: "keys ! unat c = 0" using absent by (rule lookup_wf48_None [OF wf, THEN iffD1])
  have "length (filter ?nn children) < length children" using cntc lt lc by simp
  then obtain j where j: "j < length children" "children ! j = None"
    using filter_short_ex [of ?nn children] by auto
  from addChild48_pos_char [OF le0 j]
  obtain pos where pos: "addChild48_pos children 0 = Inr pos" "pos < length children"
    "children ! pos = None" by blast
  define new :: byte where "new = of_nat (pos + 1)"
  let ?keys' = "keys[unat c := new]" and ?children' = "children[pos := Some child]"
  have "pos + 1 < 256" using pos(2) lc by simp
  then have un: "unat new = pos + 1" unfolding new_def by (rule unat_of_nat_byte)
  then have nz: "new \<noteq> 0" by (metis Suc_eq_plus1 nat.distinct(1) unat_0)
  have run: "addChild48 M st n c child = Inr (put st n (Node48 ?hdr' ?keys' ?children'))"
    using d lt48 pos(1) by (simp add: addChild48_def Let_def new_def)
  have newnot: "new \<notin> set keys"
  proof
    assume "new \<in> set keys"
    with cons nz have "children ! (unat new - 1) \<noteq> None" by blast
    with un pos(3) show False by simp
  qed
  have old: "unat k - 1 \<noteq> pos" if "k \<in> set keys" "k \<noteq> 0" for k
    using cons that pos(3) by auto
  have c1: "length (filter ?nz ?keys') = length (filter ?nz keys) + 1"
    using c kc nz by (intro filter_update_add) simp_all
  have c2: "length (filter ?nn ?children') = length (filter ?nn children) + 1"
    using pos by (intro filter_update_add) simp_all
  have cons': "\<forall>k \<in> set ?keys'. k \<noteq> 0 \<longrightarrow> unat k \<le> 48 \<and> ?children' ! (unat k - 1) \<noteq> None"
  proof (intro ballI impI)
    fix k assume k: "k \<in> set ?keys'" "k \<noteq> 0"
    then have "k = new \<or> k \<in> set keys"
      using set_update_subset_insert [of keys "unat c" new] by auto
    then show "unat k \<le> 48 \<and> ?children' ! (unat k - 1) \<noteq> None"
    proof
      assume "k = new"
      with un pos(2) lc show ?thesis by simp
    next
      assume m: "k \<in> set keys"
      with cons k(2) old [OF m k(2)] show ?thesis by simp
    qed
  qed
  have d1: "distinct (filter ?nz ?keys')" using dk newnot by (rule distinct_filter_update_add)
  have d2: "distinct (filter ?nn ?children')" using dc fresh by (rule distinct_filter_update_add)
  have wf': "wf48 ?hdr' ?keys' ?children'"
    unfolding wf48_def using lk lc cntk cntc c1 c2 cons' d1 d2 unat_inc8 [of "numChildren hdr"] lt
    by simp
  have sub: "set ?children' \<subseteq> insert (Some child) (set children)"
    by (rule set_update_subset_insert)
  have look: "lookup (Node48 ?hdr' ?keys' ?children') b =
                (if b = c then Some child else lookup (Node48 hdr keys children) b)" for b
  proof (cases "b = c")
    case True
    have "unat (new - 1) = pos" using un nz by (simp add: unat_dec8)
    with True c pos(2) nz show ?thesis
      by (simp add: lookup_wf48 [OF wf'])
  next
    case False
    then have ne: "unat b \<noteq> unat c" by (simp add: word_unat_eq_iff)
    have kb: "?keys' ! unat b = keys ! unat b" using ne by simp
    show ?thesis
    proof (cases "keys ! unat b = 0")
      case True
      with False kb show ?thesis by (simp add: lookup_wf48 [OF wf'] lookup_wf48 [OF wf])
    next
      case nzb: False
      have "unat (keys ! unat b - 1) \<noteq> pos"
        using wf48_slot(1,3) [OF wf unat_byte_less nzb] pos(3) by auto
      with False kb nzb show ?thesis
        by (simp add: lookup_wf48 [OF wf'] lookup_wf48 [OF wf])
    qed
  qed
  from run wf' sub look show ?thesis by blast
qed

lemma copyHeader_new:
  assumes "\<not> isLeaf dest" "getPartial dest = replicate M 0"
    and "min M (unat (getPartialLen src)) \<le> length (getPartial src)"
  shows "\<exists>hdr'. copyHeader M dest src = Inr (setHeader dest hdr') \<and>
           partialLen hdr' = getPartialLen src \<and> numChildren hdr' = getNumChildren src \<and>
           take (min M (unat (getPartialLen src))) (partial hdr') =
             take (min M (unat (getPartialLen src))) (getPartial src) \<and>
           length (partial hdr') = M"
proof -
  let ?L = "min M (unat (getPartialLen src))"
  have "?L \<le> length (getPartial dest)" using assms(2) by simp
  from copyHeader_Inr [OF assms(1,3) this] assms(2,3) show ?thesis
    by (auto simp: min_absorb2)
qed

lemma store_update_all: "(st :: 'v store)\<lparr>nodes := h, ref := r\<rparr> = \<lparr>nodes = h, ref = r\<rparr>"
  by (cases st) simp

lemma same_prefix_new:
  assumes "partialLen hdr' = partialLen hdr"
    and "take (min M (unat (partialLen hdr))) (partial hdr') =
           take (min M (unat (partialLen hdr))) (partial hdr)"
    and "getHeader n = hdr" "getHeader n' = hdr'"
  shows "same_prefix M n n'"
  using assms by (simp add: same_prefix_def getPartialLen_def getPartial_def)

lemma addChild4_promote_step:
  assumes d: "deref (nodes st) n = Some (Node4 hdr keys children)"
    and wf: "wf_small 4 hdr keys children"
    and full: "unat (numChildren hdr) = 4"
    and fits: "min M (unat (partialLen hdr)) \<le> length (partial hdr)"
  shows "\<exists>hdr'. addChild4 M st n c child =
           addChild16 M \<lparr>nodes = nodes st @ [Node16 hdr' (keys @ replicate 12 0)
                                                (children @ replicate 12 None)],
                         ref = Some (length (nodes st))\<rparr> (length (nodes st)) c child \<and>
           partialLen hdr' = partialLen hdr \<and> numChildren hdr' = numChildren hdr \<and>
           take (min M (unat (partialLen hdr))) (partial hdr') =
             take (min M (unat (partialLen hdr))) (partial hdr) \<and>
           length (partial hdr') = M"
proof -
  from wf have len: "length keys = 4" "length children = 4" by (simp_all add: wf_small_def)
  have nlt: "\<not> numChildren hdr < 4" using full by (simp add: word_less_nat_alt)
  let ?n16 = "Node16 (newHeader M) (keys @ replicate 12 0) (children @ replicate 12 None) :: 'a node"
  from copyHeader_new [of ?n16 M "Node4 hdr keys children"] fits
  obtain hdr' where h: "copyHeader M ?n16 (Node4 hdr keys children) = Inr (setHeader ?n16 hdr')"
    "partialLen hdr' = partialLen hdr" "numChildren hdr' = numChildren hdr"
    "take (min M (unat (partialLen hdr))) (partial hdr') =
             take (min M (unat (partialLen hdr))) (partial hdr)"
    "length (partial hdr') = M"
    by (auto simp: isLeaf_def getPartial_def getPartialLen_def getNumChildren_def newHeader_def)
  have k: "copy_go (replicate 16 (0::byte)) (take 4 keys) = keys @ replicate 12 0"
    using len by (simp add: copy_go_def)
  have c: "copy_go (replicate 16 (None::ptr)) (take 4 children) = children @ replicate 12 None"
    using len by (simp add: copy_go_def)
  have "addChild4 M st n c child =
          addChild16 M \<lparr>nodes = nodes st @ [Node16 hdr' (keys @ replicate 12 0)
                                                (children @ replicate 12 None)],
                         ref = Some (length (nodes st))\<rparr> (length (nodes st)) c child"
    using d nlt full len h(1) k c
    by (simp add: addChild4_def allocNode_def Let_def put_def store_update_all)
  with h show ?thesis by blast
qed

lemma addChild16_index_Suc:
  "addChild16_index keys (Suc nc) ks =
     (addChild16_index keys nc ks)[unat (keys ! nc) := of_nat (nc + 1)]"
  by (simp add: addChild16_index_def)

lemma addChild16_index_char:
  assumes "distinct (take nc keys)" "nc \<le> length keys" "nc < 255"
  shows "length (addChild16_index keys nc (replicate 256 0)) = 256 \<and>
         (\<forall>k<nc. addChild16_index keys nc (replicate 256 0) ! unat (keys ! k) = of_nat (k + 1)) \<and>
         (\<forall>j<256. (\<forall>k<nc. unat (keys ! k) \<noteq> j) \<longrightarrow>
                    addChild16_index keys nc (replicate 256 0) ! j = 0) \<and>
         length (filter (\<lambda>k. k \<noteq> 0) (addChild16_index keys nc (replicate 256 0))) = nc \<and>
         distinct (filter (\<lambda>k. k \<noteq> 0) (addChild16_index keys nc (replicate 256 0))) \<and>
         set (addChild16_index keys nc (replicate 256 0))
           \<subseteq> insert 0 ((\<lambda>k. of_nat (k + 1)) ` {..<nc})"
  using assms
proof (induction nc)
  case 0
  then show ?case by (auto simp: addChild16_index_def)
next
  case (Suc nc)
  let ?r = "addChild16_index keys nc (replicate 256 0)"
  let ?nz = "\<lambda>k::byte. k \<noteq> 0"
  define v :: byte where "v = of_nat (nc + 1)"
  from Suc.prems have d: "distinct (take nc keys)" and len: "nc < length keys"
    by (simp_all add: take_Suc_conv_app_nth)
  from Suc.prems have new: "keys ! nc \<notin> set (take nc keys)"
    by (simp add: take_Suc_conv_app_nth)
  have ih: "length ?r = 256" "\<forall>k<nc. ?r ! unat (keys ! k) = of_nat (k + 1)"
    "\<forall>j<256. (\<forall>k<nc. unat (keys ! k) \<noteq> j) \<longrightarrow> ?r ! j = 0"
    "length (filter ?nz ?r) = nc" "distinct (filter ?nz ?r)"
    "set ?r \<subseteq> insert 0 ((\<lambda>k. of_nat (k + 1)) ` {..<nc})"
    using Suc.IH [OF d] len Suc.prems(3) by simp_all
  have ne: "unat (keys ! k) \<noteq> unat (keys ! nc)" if "k < nc" for k
  proof -
    from that len have "keys ! k \<in> set (take nc keys)"
      by (auto simp: in_set_conv_nth)
    with new have "keys ! k \<noteq> keys ! nc" by auto
    then show ?thesis by (simp add: word_unat_eq_iff)
  qed
  have pos: "unat (keys ! nc) < 256" by (rule unat_byte_less)
  have uv: "unat v = nc + 1" unfolding v_def using Suc.prems(3) by (intro unat_of_nat_byte) simp
  then have vnz: "v \<noteq> 0" by (metis Suc_eq_plus1 nat.distinct(1) unat_0)
  have zero: "?r ! unat (keys ! nc) = 0"
    using ih(3) pos ne by (metis)
  have vnot: "v \<notin> set ?r"
  proof
    assume "v \<in> set ?r"
    with ih(6) vnz obtain k where k: "k < nc" "v = of_nat (k + 1)" by auto
    have "k + 1 < 256" using k(1) Suc.prems(3) by simp
    then have "unat v = k + 1" unfolding k(2) by (rule unat_of_nat_byte)
    with uv k(1) show False by simp
  qed
  let ?r' = "?r[unat (keys ! nc) := v]"
  have e: "addChild16_index keys (Suc nc) (replicate 256 0) = ?r'"
    by (simp add: addChild16_index_Suc v_def)
  have a: "length ?r' = 256" using ih(1) by simp
  have b: "\<forall>k<Suc nc. ?r' ! unat (keys ! k) = of_nat (k + 1)"
  proof (intro allI impI)
    fix k assume "k < Suc nc"
    show "?r' ! unat (keys ! k) = of_nat (k + 1)"
    proof (cases "k = nc")
      case True
      with pos ih(1) show ?thesis by (simp add: v_def)
    next
      case False
      with \<open>k < Suc nc\<close> have "k < nc" by simp
      with ne [OF this] ih(2) show ?thesis by simp
    qed
  qed
  have c: "\<forall>j<256. (\<forall>k<Suc nc. unat (keys ! k) \<noteq> j) \<longrightarrow> ?r' ! j = 0"
  proof (intro allI impI)
    fix j assume j: "j < 256" "\<forall>k<Suc nc. unat (keys ! k) \<noteq> j"
    then have "unat (keys ! nc) \<noteq> j" "\<forall>k<nc. unat (keys ! k) \<noteq> j" by auto
    with ih(3) j(1) show "?r' ! j = 0" by simp
  qed
  have dd: "length (filter ?nz ?r') = Suc nc"
    using filter_update_add [of "unat (keys ! nc)" ?r ?nz v] pos ih(1,4) zero vnz by simp
  have ee: "distinct (filter ?nz ?r')"
    using ih(5) vnot by (rule distinct_filter_update_add)
  have ff: "set ?r' \<subseteq> insert 0 ((\<lambda>k. of_nat (k + 1)) ` {..<Suc nc})"
  proof -
    have "set ?r' \<subseteq> insert v (set ?r)" by (rule set_update_subset_insert)
    also have "\<dots> \<subseteq> insert v (insert 0 ((\<lambda>k. of_nat (k + 1)) ` {..<nc}))"
      using ih(6) by auto
    also have "\<dots> \<subseteq> insert 0 ((\<lambda>k. of_nat (k + 1)) ` {..<Suc nc})"
      by (auto simp: v_def lessThan_Suc)
    finally show ?thesis .
  qed
  from a b c dd ee ff show ?case unfolding e by blast
qed

lemma sorted_wrt_less_distinct: "sorted_wrt (<) (xs :: 'a::linorder list) \<Longrightarrow> distinct xs"
  by (induction xs) auto

lemma filter_nonnil_id: "None \<notin> set xs \<Longrightarrow> filter (\<lambda>p. p \<noteq> None) xs = xs"
  by (intro filter_True ballI) metis

lemma addChild16_promote_step:
  fixes st :: "'v store"
  assumes d: "deref (nodes st) n = Some (Node16 hdr keys children)"
    and wf: "wf_small 16 hdr keys children"
    and full: "unat (numChildren hdr) = 16"
    and fits: "min M (unat (partialLen hdr)) \<le> length (partial hdr)"
  shows "\<exists>hdr' keys48. addChild16 M st n c child =
           addChild48 M \<lparr>nodes = nodes st @ [Node48 hdr' keys48 (children @ replicate 32 None)],
                         ref = Some (length (nodes st))\<rparr> (length (nodes st)) c child \<and>
           partialLen hdr' = partialLen hdr \<and> numChildren hdr' = numChildren hdr \<and>
           take (min M (unat (partialLen hdr))) (partial hdr') =
             take (min M (unat (partialLen hdr))) (partial hdr) \<and>
           length (partial hdr') = M \<and>
           wf48 hdr' keys48 (children @ replicate 32 None) \<and>
           (\<forall>b. lookup (Node48 hdr' keys48 (children @ replicate 32 None) :: 'v node) b =
                  lookup (Node16 hdr keys children :: 'v node) b)"
proof -
  let ?nz = "\<lambda>k::byte. k \<noteq> 0" and ?nn = "\<lambda>p::ptr. p \<noteq> None"
  from wf have len: "length keys = 16" "length children = 16"
    by (simp_all add: wf_small_def)
  then have tk: "take 16 keys = keys" "take 16 children = children" by simp_all
  from wf have srt: "sorted_wrt (<) keys" and nonnil: "None \<notin> set children"
    and dist: "distinct children"
    unfolding wf_small_def full tk by simp_all
  have dk: "distinct keys" using srt by (rule sorted_wrt_less_distinct)
  have nlt: "\<not> numChildren hdr < 16" using full by (simp add: word_less_nat_alt)
  define keys48 where "keys48 = addChild16_index keys 16 (replicate 256 0)"
  let ?c48 = "children @ replicate 32 None"
  have ch: "length keys48 = 256"
    "\<forall>k<16. keys48 ! unat (keys ! k) = of_nat (k + 1)"
    "\<forall>j<256. (\<forall>k<16. unat (keys ! k) \<noteq> j) \<longrightarrow> keys48 ! j = 0"
    "length (filter ?nz keys48) = 16" "distinct (filter ?nz keys48)"
    "set keys48 \<subseteq> insert 0 ((\<lambda>k. of_nat (k + 1)) ` {..<16})"
    using addChild16_index_char [of 16 keys] dk len unfolding keys48_def by simp_all
  let ?n48 = "Node48 (newHeader M) keys48 ?c48 :: 'v node"
  from copyHeader_new [of ?n48 M "Node16 hdr keys children"] fits
  obtain hdr' where h: "copyHeader M ?n48 (Node16 hdr keys children) = Inr (setHeader ?n48 hdr')"
    "partialLen hdr' = partialLen hdr" "numChildren hdr' = numChildren hdr"
    "take (min M (unat (partialLen hdr))) (partial hdr') =
             take (min M (unat (partialLen hdr))) (partial hdr)"
    "length (partial hdr') = M"
    by (auto simp: isLeaf_def getPartial_def getPartialLen_def getNumChildren_def newHeader_def)
  have c: "copy_go (replicate 48 (None::ptr)) (take 16 children) = ?c48"
    using len by (simp add: copy_go_def)
  have run: "addChild16 M st n c child =
          addChild48 M \<lparr>nodes = nodes st @ [Node48 hdr' keys48 ?c48],
                         ref = Some (length (nodes st))\<rparr> (length (nodes st)) c child"
    using d nlt full len h(1) c
    by (simp add: addChild16_def allocNode_def Let_def put_def store_update_all keys48_def)
  have slot: "unat k \<le> 48 \<and> ?c48 ! (unat k - 1) \<noteq> None" if "k \<in> set keys48" "k \<noteq> 0" for k
  proof -
    from that ch(6) obtain j where j: "j < 16" "k = of_nat (j + 1)" by auto
    have "j + 1 < 256" using j(1) by simp
    then have u: "unat k = j + 1" unfolding j(2) by (rule unat_of_nat_byte)
    have "children ! j \<in> set children" using j(1) len by simp
    with nonnil have "children ! j \<noteq> None" by metis
    with u j(1) len show ?thesis by (simp add: nth_append)
  qed
  have fc: "filter ?nn ?c48 = children"
    using filter_nonnil_id [OF nonnil] by (simp del: not_None_eq)
  have wf': "wf48 hdr' keys48 ?c48"
    unfolding wf48_def using ch(1,4,5) len h(3) full fc dist slot by simp
  have look: "lookup (Node48 hdr' keys48 ?c48 :: 'v node) b =
              lookup (Node16 hdr keys children :: 'v node) b" for b
  proof -
    have l16: "lookup (Node16 hdr keys children :: 'v node) b = assoc keys children b"
      using lookup_small16 [OF wf, of b] full len by simp
    show ?thesis
    proof (cases "b \<in> set keys")
      case True
      then obtain k where k: "k < 16" "keys ! k = b"
        using len by (auto simp: in_set_conv_nth)
      define v :: byte where "v = of_nat (k + 1)"
      have "k + 1 < 256" using k(1) by simp
      then have u: "unat v = k + 1" unfolding v_def by (rule unat_of_nat_byte)
      then have nz: "v \<noteq> 0" by (metis Suc_eq_plus1 nat.distinct(1) unat_0)
      have kb: "keys48 ! unat b = v" using ch(2) k by (auto simp: v_def)
      have "unat (v - 1) = k" using unat_dec8 [OF nz] u by simp
      then have "lookup (Node48 hdr' keys48 ?c48 :: 'v node) b = children ! k"
        using kb nz k(1) len by (simp add: lookup_wf48 [OF wf'] nth_append)
      moreover have "assoc keys children b = children ! k"
        using assoc_nth [OF dk, of children k] len k by simp
      ultimately show ?thesis using l16 by simp
    next
      case False
      then have "\<forall>k<16. unat (keys ! k) \<noteq> unat b"
        using len by (auto simp: word_unat_eq_iff in_set_conv_nth)
      with ch(3) unat_byte_less [of b] have "keys48 ! unat b = 0" by blast
      moreover have "assoc keys children b = None"
        using False len by (intro assoc_miss) simp_all
      ultimately show ?thesis using l16 by (simp add: lookup_wf48 [OF wf'])
    qed
  qed
  from run h(2-5) wf' look show ?thesis by blast
qed

lemma addChild48_grow_char:
  assumes "i \<le> 256" "length acc = 256"
    and "\<forall>j<256. keys ! j \<noteq> 0 \<longrightarrow> unat (keys ! j) - 1 < length children"
  shows "\<exists>r. addChild48_grow keys children acc i = Inr r \<and> length r = 256 \<and>
           (\<forall>j<256. r ! j = (if i \<le> j \<and> keys ! j \<noteq> 0
                               then children ! (unat (keys ! j) - 1) else acc ! j))"
  using assms
proof (induction keys children acc i rule: addChild48_grow.induct)
  case (1 keys children acc i)
  show ?case
  proof (cases "i < 256")
    case False
    then have "addChild48_grow keys children acc i = Inr acc"
      by (subst addChild48_grow.simps) simp
    with False "1.prems" show ?thesis by auto
  next
    case True
    then have le: "i + 1 \<le> 256" by simp
    show ?thesis
    proof (cases "keys ! i \<noteq> 0")
      case nz: True
      with True "1.prems"(3) have inb: "\<not> length children \<le> unat (keys ! i) - 1" by auto
      let ?acc' = "acc[i := children ! (unat (keys ! i) - 1)]"
      have e: "addChild48_grow keys children acc i = addChild48_grow keys children ?acc' (i + 1)"
        using True nz inb by (subst addChild48_grow.simps) simp
      have "length ?acc' = 256" using "1.prems"(2) by simp
      from "1.IH"(1) [OF True nz inb le this "1.prems"(3)]
      obtain r where r: "addChild48_grow keys children ?acc' (i + 1) = Inr r" "length r = 256"
        "\<forall>j<256. r ! j = (if i + 1 \<le> j \<and> keys ! j \<noteq> 0
                               then children ! (unat (keys ! j) - 1) else ?acc' ! j)"
        by blast
      have "r ! j = (if i \<le> j \<and> keys ! j \<noteq> 0
                               then children ! (unat (keys ! j) - 1) else acc ! j)" if "j < 256" for j
        using r(3) that nz "1.prems"(2) True by (cases "j = i") auto
      with r(1,2) show ?thesis unfolding e by blast
    next
      case z: False
      have e: "addChild48_grow keys children acc i = addChild48_grow keys children acc (i + 1)"
        using True z by (subst addChild48_grow.simps) simp
      from "1.IH"(2) [OF True z le "1.prems"(2,3)]
      obtain r where r: "addChild48_grow keys children acc (i + 1) = Inr r" "length r = 256"
        "\<forall>j<256. r ! j = (if i + 1 \<le> j \<and> keys ! j \<noteq> 0
                               then children ! (unat (keys ! j) - 1) else acc ! j)"
        by blast
      have "r ! j = (if i \<le> j \<and> keys ! j \<noteq> 0
                               then children ! (unat (keys ! j) - 1) else acc ! j)" if "j < 256" for j
        using r(3) that z by (cases "j = i") auto
      with r(1,2) show ?thesis unfolding e by blast
    qed
  qed
qed

lemma addChild48_promote_step:
  fixes st :: "'v store"
  assumes d: "deref (nodes st) n = Some (Node48 hdr keys children)"
    and wf: "wf48 hdr keys children"
    and full: "\<not> unat (numChildren hdr) < 48"
    and fits: "min M (unat (partialLen hdr)) \<le> length (partial hdr)"
  shows "\<exists>hdr' c256. addChild48 M st n c child =
           addChild256 \<lparr>nodes = nodes st @ [Node256 hdr' c256],
                         ref = Some (length (nodes st))\<rparr> (length (nodes st)) c child \<and>
           partialLen hdr' = partialLen hdr \<and> numChildren hdr' = numChildren hdr \<and>
           take (min M (unat (partialLen hdr))) (partial hdr') =
             take (min M (unat (partialLen hdr))) (partial hdr) \<and>
           length (partial hdr') = M \<and>
           wf256 hdr' c256 \<and> set c256 \<subseteq> insert None (set children) \<and>
           (\<forall>b. lookup (Node256 hdr' c256 :: 'v node) b =
                  lookup (Node48 hdr keys children :: 'v node) b)"
proof -
  let ?nz = "\<lambda>k::byte. k \<noteq> 0" and ?nn = "\<lambda>p::ptr. p \<noteq> None"
  let ?f = "\<lambda>k::byte. if k \<noteq> 0 then children ! (unat k - 1) else None"
  from wf have lk: "length keys = 256" and lc: "length children = 48"
    and cntk: "unat (numChildren hdr) = length (filter ?nz keys)"
    and cons: "\<forall>k \<in> set keys. k \<noteq> 0 \<longrightarrow> unat k \<le> 48 \<and> children ! (unat k - 1) \<noteq> None"
    and dk: "distinct (filter ?nz keys)" and dc: "distinct (filter ?nn children)"
    by (simp_all add: wf48_def)
  have nlt: "\<not> numChildren hdr < 48" using full by (simp add: word_less_nat_alt)
  have inr: "\<forall>j<256. keys ! j \<noteq> 0 \<longrightarrow> unat (keys ! j) - 1 < length children"
    using wf48_slot(4,5) [OF wf] lc by (metis One_nat_def Suc_pred le_imp_less_Suc less_Suc_eq_le not_less)
  from addChild48_grow_char [OF le0 _ inr, of "replicate 256 None"]
  obtain c256 where g: "addChild48_grow keys children (replicate 256 None) 0 = Inr c256"
    "length c256 = 256"
    "\<forall>j<256. c256 ! j = (if keys ! j \<noteq> 0 then children ! (unat (keys ! j) - 1) else None)"
    by auto
  have cmap: "c256 = map ?f keys"
    using g(2,3) lk by (intro nth_equalityI) simp_all
  let ?n256 = "Node256 (newHeader M) c256 :: 'v node"
  from copyHeader_new [of ?n256 M "Node48 hdr keys children"] fits
  obtain hdr' where h: "copyHeader M ?n256 (Node48 hdr keys children) = Inr (setHeader ?n256 hdr')"
    "partialLen hdr' = partialLen hdr" "numChildren hdr' = numChildren hdr"
    "take (min M (unat (partialLen hdr))) (partial hdr') =
             take (min M (unat (partialLen hdr))) (partial hdr)"
    "length (partial hdr') = M"
    by (auto simp: isLeaf_def getPartial_def getPartialLen_def getNumChildren_def newHeader_def)
  have run: "addChild48 M st n c child =
          addChild256 \<lparr>nodes = nodes st @ [Node256 hdr' c256],
                         ref = Some (length (nodes st))\<rparr> (length (nodes st)) c child"
    using d nlt g(1) h(1)
    by (simp add: addChild48_def allocNode_def Let_def put_def store_update_all)
  have slotk: "unat k - 1 < length children" "children ! (unat k - 1) \<noteq> None" "0 < unat k"
    if "k \<in> set keys" "k \<noteq> 0" for k
  proof -
    from that(2) show p: "0 < unat k" by (simp add: unat_gt_0)
    from cons that have "unat k \<le> 48" and n: "children ! (unat k - 1) \<noteq> None" by blast+
    with p lc show "unat k - 1 < length children" by simp
    from n show "children ! (unat k - 1) \<noteq> None" .
  qed
  have fnn: "?nn (?f k) \<longleftrightarrow> ?nz k" if "k \<in> set keys" for k
    using slotk(2) [OF that] by auto
  have fc: "filter (?nn \<circ> ?f) keys = filter ?nz keys"
  proof (rule filter_cong [OF refl])
    fix k assume "k \<in> set keys"
    from fnn [OF this] show "(?nn \<circ> ?f) k = ?nz k" unfolding o_def .
  qed
  have filt: "filter ?nn c256 = map ?f (filter ?nz keys)"
    unfolding cmap filter_map fc ..
  have inj: "inj_on ?f (set (filter ?nz keys))"
  proof (rule inj_onI)
    fix k k' assume k: "k \<in> set (filter ?nz keys)" "k' \<in> set (filter ?nz keys)" "?f k = ?f k'"
    then have nz: "k \<noteq> 0" "k' \<noteq> 0" and m: "k \<in> set keys" "k' \<in> set keys" by auto
    have s: "unat k - 1 < length children" "unat k' - 1 < length children"
      "children ! (unat k - 1) \<noteq> None"
      using slotk m nz by blast+
    from k(3) nz have "children ! (unat k - 1) = children ! (unat k' - 1)" by simp
    from distinct_filter_nth [OF dc s(1,2) s(3) this] have "unat k - 1 = unat k' - 1" .
    moreover have "0 < unat k" "0 < unat k'" using nz by (simp_all add: unat_gt_0)
    ultimately have "unat k = unat k'" by simp
    then show "k = k'" by (simp add: word_unat_eq_iff)
  qed
  have wf': "wf256 hdr' c256"
    unfolding wf256_def filt using g(2) h(3) cntk dk inj by (simp add: distinct_map)
  have sub: "set c256 \<subseteq> insert None (set children)"
  proof
    fix p assume "p \<in> set c256"
    then obtain k where k: "k \<in> set keys" "p = ?f k" unfolding cmap by auto
    show "p \<in> insert None (set children)"
    proof (cases "k = 0")
      case True
      with k show ?thesis by simp
    next
      case False
      with slotk(1) k(1) have "unat k - 1 < length children" by blast
      with k(2) False show ?thesis by simp
    qed
  qed
  have look: "lookup (Node256 hdr' c256 :: 'v node) b =
              lookup (Node48 hdr keys children :: 'v node) b" for b
  proof -
    have "c256 ! unat b = ?f (keys ! unat b)"
      using g(3) unat_byte_less [of b] by simp
    then show ?thesis
      using wf48_slot(1) [OF wf unat_byte_less, of b]
      by (simp add: lookup_Node256 lookup_wf48 [OF wf])
  qed
  from run h(2-5) wf' sub look show ?thesis by blast
qed

subsection \<open>The complete effect of an add on each variant\<close>

lemma getters_simps [simp]:
  "getNumChildren (Node4 hdr ks cs) = numChildren hdr"
  "getNumChildren (Node16 hdr ks cs) = numChildren hdr"
  "getNumChildren (Node48 hdr ks cs) = numChildren hdr"
  "getNumChildren (Node256 hdr cs) = numChildren hdr"
  "getPartialLen (Node4 hdr ks cs) = partialLen hdr"
  "getPartialLen (Node16 hdr ks cs) = partialLen hdr"
  "getPartialLen (Node48 hdr ks cs) = partialLen hdr"
  "getPartialLen (Node256 hdr cs) = partialLen hdr"
  "getPartial (Node4 hdr ks cs) = partial hdr"
  "getPartial (Node16 hdr ks cs) = partial hdr"
  "getPartial (Node48 hdr ks cs) = partial hdr"
  "getPartial (Node256 hdr cs) = partial hdr"
  by (simp_all add: getNumChildren_def getPartialLen_def getPartial_def)

lemma isLeaf_simps [simp]:
  "isLeaf (NodeLeaf k kl v)" "\<not> isLeaf (Node4 hdr ks cs)" "\<not> isLeaf (Node16 hdr ks cs)"
  "\<not> isLeaf (Node48 hdr ks cs)" "\<not> isLeaf (Node256 hdr cs2)"
  by (simp_all add: isLeaf_def)

lemma wf_small_pad:
  assumes "wf_small 4 hdr keys children" "unat (numChildren hdr) = 4"
    and "numChildren hdr' = numChildren hdr"
  shows "wf_small 16 hdr' (keys @ replicate 12 0) (children @ replicate 12 None)"
  using assms by (auto simp: wf_small_def)

lemma addChild4_effect:
  fixes st :: "'v store"
  assumes d: "deref (nodes st) n = Some (Node4 hdr keys children)"
    and wf: "wf_small 4 hdr keys children"
    and fits: "length (partial hdr) = M"
    and absent: "lookup (Node4 hdr keys children :: 'v node) c = None"
    and fresh: "Some child \<notin> set children"
  shows "\<exists>n' :: 'v node. wf_node n' \<and> added M (Node4 hdr keys children) c child n' \<and>
           buffer_ok M n' \<and> \<not> isLeaf n' \<and>
           set (getChildren n') \<subseteq> insert (Some child) (insert None (set children)) \<and>
           (if unat (numChildren hdr) = 4
            then addChild4 M st n c child =
                   Inr \<lparr>nodes = nodes st @ [n'], ref = Some (length (nodes st))\<rparr> \<and>
                 getArtNodeType n' = node16
            else addChild4 M st n c child = Inr (put st n n') \<and> getArtNodeType n' = node4)"
proof (cases "unat (numChildren hdr) = 4")
  case False
  with wf have lt: "unat (numChildren hdr) < 4" by (simp add: wf_small_def)
  have fr: "Some child \<notin> set (take (unat (numChildren hdr)) children)"
    using fresh by (auto dest: in_set_takeD)
  from addChild4_inplace [OF d wf lt absent fr, of M]
  obtain keys' children' where r:
    "addChild4 M st n c child =
       Inr (put st n (Node4 (hdr\<lparr>numChildren := numChildren hdr + 1\<rparr>) keys' children'))"
    "wf_small 4 (hdr\<lparr>numChildren := numChildren hdr + 1\<rparr>) keys' children'"
    "set children' \<subseteq> insert (Some child) (set children)"
    "\<forall>b. lookup (Node4 (hdr\<lparr>numChildren := numChildren hdr + 1\<rparr>) keys' children' :: 'v node) b =
           (if b = c then Some child else lookup (Node4 hdr keys children :: 'v node) b)"
    by blast
  let ?n' = "Node4 (hdr\<lparr>numChildren := numChildren hdr + 1\<rparr>) keys' children' :: 'v node"
  have "added M (Node4 hdr keys children) c child ?n'"
    using r(4) by (simp add: added_def same_prefix_def)
  with r False fits show ?thesis
    by (intro exI [of _ ?n']) (auto simp: buffer_ok_def)
next
  case True
  have fit: "min M (unat (partialLen hdr)) \<le> length (partial hdr)" using fits by simp
  from addChild4_promote_step [OF d wf True fit, of c child]
  obtain hdr' where h: "addChild4 M st n c child =
           addChild16 M \<lparr>nodes = nodes st @ [Node16 hdr' (keys @ replicate 12 0)
                                                (children @ replicate 12 None)],
                         ref = Some (length (nodes st))\<rparr> (length (nodes st)) c child"
    "partialLen hdr' = partialLen hdr" "numChildren hdr' = numChildren hdr"
    "take (min M (unat (partialLen hdr))) (partial hdr') =
             take (min M (unat (partialLen hdr))) (partial hdr)"
    "length (partial hdr') = M" by blast
  let ?k = "keys @ replicate 12 0" and ?c = "children @ replicate 12 None"
  let ?st1 = "\<lparr>nodes = nodes st @ [Node16 hdr' ?k ?c :: 'v node], ref = Some (length (nodes st))\<rparr>"
  from wf have len: "length keys = 4" "length children = 4" by (simp_all add: wf_small_def)
  have wf1: "wf_small 16 hdr' ?k ?c" using wf True h(3) by (rule wf_small_pad)
  have d1: "deref (nodes ?st1) (length (nodes st)) = Some (Node16 hdr' ?k ?c)"
    by (simp add: deref_new)
  have lt: "unat (numChildren hdr') < 16" using h(3) True by simp
  have same: "lookup (Node16 hdr' ?k ?c :: 'v node) b = lookup (Node4 hdr keys children :: 'v node) b" for b
    using len True h(3) by (simp add: lookup_small16 [OF wf1] lookup_small4 [OF wf])
  have ab: "lookup (Node16 hdr' ?k ?c :: 'v node) c = None" using same absent by simp
  have fr: "Some child \<notin> set (take (unat (numChildren hdr')) ?c)"
    using fresh len h(3) True by simp
  from addChild16_inplace [OF d1 wf1 lt ab fr, of M]
  obtain keys' children' where r:
    "addChild16 M ?st1 (length (nodes st)) c child =
       Inr (put ?st1 (length (nodes st)) (Node16 (hdr'\<lparr>numChildren := numChildren hdr' + 1\<rparr>) keys' children'))"
    "wf_small 16 (hdr'\<lparr>numChildren := numChildren hdr' + 1\<rparr>) keys' children'"
    "set children' \<subseteq> insert (Some child) (set ?c)"
    "\<forall>b. lookup (Node16 (hdr'\<lparr>numChildren := numChildren hdr' + 1\<rparr>) keys' children' :: 'v node) b =
           (if b = c then Some child else lookup (Node16 hdr' ?k ?c :: 'v node) b)"
    by blast
  let ?n' = "Node16 (hdr'\<lparr>numChildren := numChildren hdr' + 1\<rparr>) keys' children' :: 'v node"
  have run: "addChild4 M st n c child =
               Inr \<lparr>nodes = nodes st @ [?n'], ref = Some (length (nodes st))\<rparr>"
    unfolding h(1) r(1) by (rule arg_cong [where f = Inr]) (rule put_new)
  have ad: "added M (Node4 hdr keys children) c child ?n'"
    using r(4) same h(2,3,4) by (simp add: added_def same_prefix_def)
  have sub: "set children' \<subseteq> insert (Some child) (insert None (set children))"
    using r(3) by auto
  from run ad sub r(2) h(5) True show ?thesis
    by (intro exI [of _ ?n']) (auto simp: buffer_ok_def)
qed


lemma addChild16_effect:
  fixes st :: "'v store"
  assumes d: "deref (nodes st) n = Some (Node16 hdr keys children)"
    and wf: "wf_small 16 hdr keys children"
    and fits: "length (partial hdr) = M"
    and absent: "lookup (Node16 hdr keys children :: 'v node) c = None"
    and fresh: "Some child \<notin> set children"
  shows "\<exists>n' :: 'v node. wf_node n' \<and> added M (Node16 hdr keys children) c child n' \<and>
           buffer_ok M n' \<and> \<not> isLeaf n' \<and>
           set (getChildren n') \<subseteq> insert (Some child) (insert None (set children)) \<and>
           (if unat (numChildren hdr) = 16
            then addChild16 M st n c child =
                   Inr \<lparr>nodes = nodes st @ [n'], ref = Some (length (nodes st))\<rparr> \<and>
                 getArtNodeType n' = node48
            else addChild16 M st n c child = Inr (put st n n') \<and> getArtNodeType n' = node16)"
proof (cases "unat (numChildren hdr) = 16")
  case False
  with wf have lt: "unat (numChildren hdr) < 16" by (simp add: wf_small_def)
  have fr: "Some child \<notin> set (take (unat (numChildren hdr)) children)"
    using fresh by (auto dest: in_set_takeD)
  from addChild16_inplace [OF d wf lt absent fr, of M]
  obtain keys' children' where r:
    "addChild16 M st n c child =
       Inr (put st n (Node16 (hdr\<lparr>numChildren := numChildren hdr + 1\<rparr>) keys' children'))"
    "wf_small 16 (hdr\<lparr>numChildren := numChildren hdr + 1\<rparr>) keys' children'"
    "set children' \<subseteq> insert (Some child) (set children)"
    "\<forall>b. lookup (Node16 (hdr\<lparr>numChildren := numChildren hdr + 1\<rparr>) keys' children' :: 'v node) b =
           (if b = c then Some child else lookup (Node16 hdr keys children :: 'v node) b)"
    by blast
  let ?n' = "Node16 (hdr\<lparr>numChildren := numChildren hdr + 1\<rparr>) keys' children' :: 'v node"
  have "added M (Node16 hdr keys children) c child ?n'"
    using r(4) by (simp add: added_def same_prefix_def)
  with r False fits show ?thesis
    by (intro exI [of _ ?n']) (auto simp: buffer_ok_def)
next
  case True
  have fit: "min M (unat (partialLen hdr)) \<le> length (partial hdr)" using fits by simp
  from addChild16_promote_step [OF d wf True fit, of c child]
  obtain hdr' keys48 where h: "addChild16 M st n c child =
           addChild48 M \<lparr>nodes = nodes st @ [Node48 hdr' keys48 (children @ replicate 32 None)],
                         ref = Some (length (nodes st))\<rparr> (length (nodes st)) c child"
    "partialLen hdr' = partialLen hdr" "numChildren hdr' = numChildren hdr"
    "take (min M (unat (partialLen hdr))) (partial hdr') =
             take (min M (unat (partialLen hdr))) (partial hdr)"
    "length (partial hdr') = M"
    "wf48 hdr' keys48 (children @ replicate 32 None)"
    "\<forall>b. lookup (Node48 hdr' keys48 (children @ replicate 32 None) :: 'v node) b =
                  lookup (Node16 hdr keys children :: 'v node) b" by blast
  let ?c = "children @ replicate 32 None"
  let ?st1 = "\<lparr>nodes = nodes st @ [Node48 hdr' keys48 ?c :: 'v node], ref = Some (length (nodes st))\<rparr>"
  have d1: "deref (nodes ?st1) (length (nodes st)) = Some (Node48 hdr' keys48 ?c)"
    by (simp add: deref_new)
  have lt: "unat (numChildren hdr') < 48" using h(3) True by simp
  have ab: "lookup (Node48 hdr' keys48 ?c :: 'v node) c = None" using h(7) absent by simp
  have fr: "Some child \<notin> set ?c" using fresh by simp
  from addChild48_inplace [OF d1 h(6) lt ab fr, of M]
  obtain keys' children' where r:
    "addChild48 M ?st1 (length (nodes st)) c child =
       Inr (put ?st1 (length (nodes st)) (Node48 (hdr'\<lparr>numChildren := numChildren hdr' + 1\<rparr>) keys' children'))"
    "wf48 (hdr'\<lparr>numChildren := numChildren hdr' + 1\<rparr>) keys' children'"
    "set children' \<subseteq> insert (Some child) (set ?c)"
    "\<forall>b. lookup (Node48 (hdr'\<lparr>numChildren := numChildren hdr' + 1\<rparr>) keys' children' :: 'v node) b =
           (if b = c then Some child else lookup (Node48 hdr' keys48 ?c :: 'v node) b)"
    by blast
  let ?n' = "Node48 (hdr'\<lparr>numChildren := numChildren hdr' + 1\<rparr>) keys' children' :: 'v node"
  have run: "addChild16 M st n c child =
               Inr \<lparr>nodes = nodes st @ [?n'], ref = Some (length (nodes st))\<rparr>"
    unfolding h(1) r(1) by (rule arg_cong [where f = Inr]) (rule put_new)
  have ad: "added M (Node16 hdr keys children) c child ?n'"
    using r(4) h(2,3,4,7) by (simp add: added_def same_prefix_def)
  have sub: "set children' \<subseteq> insert (Some child) (insert None (set children))"
    using r(3) by auto
  from run ad sub r(2) h(5) True show ?thesis
    by (intro exI [of _ ?n']) (auto simp: buffer_ok_def)
qed

lemma wf48_count_le:
  assumes "wf48 hdr keys children"
  shows "unat (numChildren hdr) \<le> 48"
proof -
  have "length (filter (\<lambda>p. p \<noteq> None) children) \<le> length children" by (rule length_filter_le)
  with assms show ?thesis by (simp add: wf48_def)
qed

lemma addChild48_effect:
  fixes st :: "'v store"
  assumes d: "deref (nodes st) n = Some (Node48 hdr keys children)"
    and wf: "wf48 hdr keys children"
    and fits: "length (partial hdr) = M"
    and absent: "lookup (Node48 hdr keys children :: 'v node) c = None"
    and fresh: "Some child \<notin> set children"
  shows "\<exists>n' :: 'v node. wf_node n' \<and> added M (Node48 hdr keys children) c child n' \<and>
           buffer_ok M n' \<and> \<not> isLeaf n' \<and>
           set (getChildren n') \<subseteq> insert (Some child) (insert None (set children)) \<and>
           (if unat (numChildren hdr) = 48
            then addChild48 M st n c child =
                   Inr \<lparr>nodes = nodes st @ [n'], ref = Some (length (nodes st))\<rparr> \<and>
                 getArtNodeType n' = node256
            else addChild48 M st n c child = Inr (put st n n') \<and> getArtNodeType n' = node48)"
proof (cases "unat (numChildren hdr) = 48")
  case False
  with wf48_count_le [OF wf] have lt: "unat (numChildren hdr) < 48" by simp
  from addChild48_inplace [OF d wf lt absent fresh, of M]
  obtain keys' children' where r:
    "addChild48 M st n c child =
       Inr (put st n (Node48 (hdr\<lparr>numChildren := numChildren hdr + 1\<rparr>) keys' children'))"
    "wf48 (hdr\<lparr>numChildren := numChildren hdr + 1\<rparr>) keys' children'"
    "set children' \<subseteq> insert (Some child) (set children)"
    "\<forall>b. lookup (Node48 (hdr\<lparr>numChildren := numChildren hdr + 1\<rparr>) keys' children' :: 'v node) b =
           (if b = c then Some child else lookup (Node48 hdr keys children :: 'v node) b)"
    by blast
  let ?n' = "Node48 (hdr\<lparr>numChildren := numChildren hdr + 1\<rparr>) keys' children' :: 'v node"
  have "added M (Node48 hdr keys children) c child ?n'"
    using r(4) by (simp add: added_def same_prefix_def)
  with r False fits show ?thesis
    by (intro exI [of _ ?n']) (auto simp: buffer_ok_def)
next
  case True
  then have full: "\<not> unat (numChildren hdr) < 48" by simp
  have fit: "min M (unat (partialLen hdr)) \<le> length (partial hdr)" using fits by simp
  from addChild48_promote_step [OF d wf full fit, of c child]
  obtain hdr' c256 where h: "addChild48 M st n c child =
           addChild256 \<lparr>nodes = nodes st @ [Node256 hdr' c256],
                         ref = Some (length (nodes st))\<rparr> (length (nodes st)) c child"
    "partialLen hdr' = partialLen hdr" "numChildren hdr' = numChildren hdr"
    "take (min M (unat (partialLen hdr))) (partial hdr') =
             take (min M (unat (partialLen hdr))) (partial hdr)"
    "length (partial hdr') = M"
    "wf256 hdr' c256" "set c256 \<subseteq> insert None (set children)"
    "\<forall>b. lookup (Node256 hdr' c256 :: 'v node) b =
                  lookup (Node48 hdr keys children :: 'v node) b" by blast
  let ?st1 = "\<lparr>nodes = nodes st @ [Node256 hdr' c256 :: 'v node], ref = Some (length (nodes st))\<rparr>"
  have d1: "deref (nodes ?st1) (length (nodes st)) = Some (Node256 hdr' c256)"
    by (simp add: deref_new)
  have lt: "unat (numChildren hdr') < 255" using h(3) True by simp
  have ab: "lookup (Node256 hdr' c256 :: 'v node) c = None" using h(8) absent by simp
  have fr: "Some child \<notin> set c256" using fresh h(7) by auto
  let ?n' = "Node256 (hdr'\<lparr>numChildren := numChildren hdr' + 1\<rparr>) (c256[unat c := Some child]) :: 'v node"
  note r = addChild256_step [OF d1 h(6) lt ab fr]
  have run: "addChild48 M st n c child =
               Inr \<lparr>nodes = nodes st @ [?n'], ref = Some (length (nodes st))\<rparr>"
    unfolding h(1) r(1) by (rule arg_cong [where f = Inr]) (rule put_new)
  have lk: "\<forall>b. lookup ?n' b = (if b = c then Some child else lookup (Node256 hdr' c256 :: 'v node) b)"
    by (intro allI) (rule r(3))
  have ad: "added M (Node48 hdr keys children) c child ?n'"
    using lk h(2,3,4,8) by (simp add: added_def same_prefix_def)
  have "set (c256[unat c := Some child]) \<subseteq> insert (Some child) (set c256)"
    by (rule set_update_subset_insert)
  with h(7) have sub: "set (c256[unat c := Some child]) \<subseteq> insert (Some child) (insert None (set children))"
    by auto
  from run ad sub r(2) h(5) True show ?thesis
    by (intro exI [of _ ?n']) (auto simp: buffer_ok_def)
qed

lemma addChild256_effect:
  fixes st :: "'v store"
  assumes d: "deref (nodes st) n = Some (Node256 hdr children)"
    and wf: "wf256 hdr children"
    and fits: "length (partial hdr) = M"
    and lt: "unat (numChildren hdr) < 255"
    and absent: "lookup (Node256 hdr children :: 'v node) c = None"
    and fresh: "Some child \<notin> set children"
  shows "\<exists>n' :: 'v node. wf_node n' \<and> added M (Node256 hdr children) c child n' \<and>
           buffer_ok M n' \<and> \<not> isLeaf n' \<and>
           set (getChildren n') \<subseteq> insert (Some child) (insert None (set children)) \<and>
           addChild256 st n c child = Inr (put st n n') \<and> getArtNodeType n' = node256"
proof -
  let ?n' = "Node256 (hdr\<lparr>numChildren := numChildren hdr + 1\<rparr>) (children[unat c := Some child]) :: 'v node"
  note r = addChild256_step [OF d wf lt absent fresh]
  have lk: "\<forall>b. lookup ?n' b = (if b = c then Some child else lookup (Node256 hdr children :: 'v node) b)"
    by (intro allI) (rule r(3))
  have ad: "added M (Node256 hdr children) c child ?n'"
    using lk by (simp add: added_def same_prefix_def)
  have "set (children[unat c := Some child]) \<subseteq> insert (Some child) (set children)"
    by (rule set_update_subset_insert)
  then have sub: "set (children[unat c := Some child]) \<subseteq> insert (Some child) (insert None (set children))"
    by auto
  from r(1) ad sub r(2) fits show ?thesis
    by (intro exI [of _ ?n']) (auto simp: buffer_ok_def)
qed

section \<open>Promotion on add\<close>

text \<open>
  Claim C3. Let \<open>node\<close> be a well-formed internal node at address \<open>n\<close> with a prefix
  buffer of \<open>M\<close> bytes, \<open>c\<close> a byte it has no child for, and \<open>child\<close> an address
  none of its slots holds (a Node256 has fewer than 255 children, the largest count the
  8-bit counter can be raised from). Then \<open>addChild\<close> succeeds with a well-formed node
  \<open>n'\<close> that has one child more, the same logical prefix length and explicit prefix
  bytes, and the associations of \<open>node\<close> plus \<open>c\<close> to \<open>child\<close>. When \<open>numChildren\<close> is
  the capacity of the variant (4, 16, 48), \<open>n'\<close> is of the next larger variant, freshly
  allocated at the end of the heap, and the caller-held reference is set to it; in every
  other case \<open>n'\<close> is of the same variant and written in place of \<open>node\<close>, the
  reference as it was.
\<close>

theorem addChild_promotes:
  fixes st :: "'v store"
  assumes d: "deref (nodes st) n = Some node"
    and internal: "\<not> isLeaf node"
    and wf: "wf_node node"
    and buf: "buffer_ok M node"
    and room: "unat (getNumChildren node) < 255"
    and absent: "lookup node c = None"
    and fresh: "Some child \<notin> set (getChildren node)"
  shows "\<exists>n'. wf_node n' \<and> added M node c child n' \<and>
           (if unat (getNumChildren node) = capacity (getArtNodeType node)
            then addChild M st n c child =
                   Inr \<lparr>nodes = nodes st @ [n'], ref = Some (length (nodes st))\<rparr> \<and>
                 getArtNodeType n' = larger (getArtNodeType node)
            else addChild M st n c child = Inr (put st n n') \<and>
                 getArtNodeType n' = getArtNodeType node)"
proof (cases node)
  case (NodeLeaf k kl v)
  with internal show ?thesis by simp
next
  case (Node4 hdr keys children)
  have run: "addChild M st n c child = addChild4 M st n c child"
    using d Node4 by (simp add: addChild_def)
  from addChild4_effect [of st n hdr keys children M c child] d wf buf absent fresh Node4
  show ?thesis unfolding run Node4 by (simp add: buffer_ok_def split del: if_split cong: if_cong) blast
next
  case (Node16 hdr keys children)
  have run: "addChild M st n c child = addChild16 M st n c child"
    using d Node16 by (simp add: addChild_def)
  from addChild16_effect [of st n hdr keys children M c child] d wf buf absent fresh Node16
  show ?thesis unfolding run Node16 by (simp add: buffer_ok_def split del: if_split cong: if_cong) blast
next
  case (Node48 hdr keys children)
  have run: "addChild M st n c child = addChild48 M st n c child"
    using d Node48 by (simp add: addChild_def)
  from addChild48_effect [of st n hdr keys children M c child] d wf buf absent fresh Node48
  show ?thesis unfolding run Node48 by (simp add: buffer_ok_def split del: if_split cong: if_cong) blast
next
  case (Node256 hdr children)
  have run: "addChild M st n c child = addChild256 st n c child"
    using d Node256 by (simp add: addChild_def)
  have ne: "unat (numChildren hdr) \<noteq> 256" using room Node256 by simp
  from addChild256_effect [of st n hdr children M c child] d wf buf room absent fresh Node256
  show ?thesis unfolding run Node256 using ne by (simp add: buffer_ok_def) blast
qed

theorem addChild_promotes_witness:
  "\<exists>n'. wf_node n' \<and> added 10 (full4_heap ! 0) 0 5 n' \<and>
     addChild 10 \<lparr>nodes = full4_heap, ref = Some 0\<rparr> 0 0 5 =
       Inr \<lparr>nodes = full4_heap @ [n'], ref = Some 6\<rparr> \<and>
     getArtNodeType n' = node16"
proof -
  let ?st = "\<lparr>nodes = full4_heap, ref = Some 0\<rparr>"
  have h1: "deref (nodes ?st) 0 = Some (full4_heap ! 0)" by (simp add: full4_heap_def deref_def)
  have h2: "\<not> isLeaf (full4_heap ! 0)" by (simp add: full4_heap_def)
  have h3: "wf_node (full4_heap ! 0)" by (simp add: full4_heap_def wf_small_def)
  have h4: "buffer_ok 10 (full4_heap ! 0)" by (simp add: full4_heap_def buffer_ok_def)
  have h5: "unat (getNumChildren (full4_heap ! 0)) < 255" by (simp add: full4_heap_def)
  have h6: "lookup (full4_heap ! 0) 0 = None" by code_simp
  have h7: "Some 5 \<notin> set (getChildren (full4_heap ! 0))" by (simp add: full4_heap_def)
  have full: "unat (getNumChildren (full4_heap ! 0)) = capacity (getArtNodeType (full4_heap ! 0))"
    by (simp add: full4_heap_def)
  have len: "length (nodes ?st) = 6" by (simp add: full4_heap_def)
  have ty: "larger (getArtNodeType (full4_heap ! 0)) = node16" by (simp add: full4_heap_def)
  from addChild_promotes [OF h1 h2 h3 h4 h5 h6 h7]
  show ?thesis unfolding full len ty by simp
qed

section \<open>Removing a child: the steps\<close>

lemma removeChild_pos_first:
  "i0 < length cs \<Longrightarrow> cs ! i0 = l \<Longrightarrow> \<forall>j<i0. cs ! j \<noteq> l \<Longrightarrow>
     removeChild_pos cs l i = int (i + i0)"
proof (induction cs arbitrary: i i0)
  case Nil
  then show ?case by simp
next
  case (Cons x xs)
  show ?case
  proof (cases i0)
    case 0
    with Cons.prems show ?thesis by simp
  next
    case (Suc k)
    with Cons.prems have "x \<noteq> l" by auto
    moreover have "removeChild_pos xs l (i + 1) = int (i + 1 + k)"
      using Cons.prems Suc by (intro Cons.IH) auto
    ultimately show ?thesis using Suc by simp
  qed
qed

lemma remove_at_distinct:
  assumes "distinct xs"
  shows "distinct (take i xs @ drop (i + 1) xs)"
proof (cases "i < length xs")
  case True
  from assms id_take_nth_drop [OF True] have "distinct (take i xs @ xs ! i # drop (Suc i) xs)"
    by simp
  then show ?thesis by simp
next
  case False
  with assms show ?thesis by simp
qed

lemma remove_at_subset: "set (take i xs @ drop (i + 1) xs) \<subseteq> set xs"
  by (auto dest: in_set_takeD in_set_dropD)

lemma shift_left_subset:
  assumes "pos < length xs"
  shows "set (shift_left xs pos) \<subseteq> set xs"
proof -
  have "xs \<noteq> []" using assms by auto
  then have "last xs \<in> set xs" by simp
  then show ?thesis
    unfolding shift_left_eq [OF assms] by (auto dest: in_set_takeD in_set_dropD)
qed

lemma small_remove:
  assumes wf: "wf_small cap hdr keys children"
    and i: "i < unat (numChildren hdr)"
  shows "unat (numChildren hdr - 1) = unat (numChildren hdr) - 1"
    and "wf_small cap (hdr\<lparr>numChildren := numChildren hdr - 1\<rparr>)
           (shift_left keys i) (shift_left children i)"
    and "assoc (take (unat (numChildren hdr) - 1) (shift_left keys i))
               (take (unat (numChildren hdr) - 1) (shift_left children i)) b =
           (if b = keys ! i then None
            else assoc (take (unat (numChildren hdr)) keys)
                       (take (unat (numChildren hdr)) children) b)"
    and "set (shift_left children i) \<subseteq> set children"
    and "removeChild_pos children (children ! i) 0 = int i"
proof -
  let ?nc = "unat (numChildren hdr)"
  let ?K = "take ?nc keys" and ?C = "take ?nc children"
  from wf have len: "length keys = cap" "length children = cap" "?nc \<le> cap"
    and sorted: "sorted_wrt (<) ?K" and nonnil: "None \<notin> set ?C" and dist: "distinct ?C"
    by (simp_all add: wf_small_def)
  have ne: "numChildren hdr \<noteq> 0" using i by auto
  show dec: "unat (numChildren hdr - 1) = ?nc - 1" using ne by (rule unat_dec8)
  have tk: "take (?nc - 1) (shift_left keys i) = take i ?K @ drop (i + 1) ?K"
    using i len by (intro shift_left_take) simp_all
  have tc: "take (?nc - 1) (shift_left children i) = take i ?C @ drop (i + 1) ?C"
    using i len by (intro shift_left_take) simp_all
  have nc': "unat (numChildren (hdr\<lparr>numChildren := numChildren hdr - 1\<rparr>)) = ?nc - 1"
    using dec by simp
  have s': "sorted_wrt (<) (take i ?K @ drop (i + 1) ?K)" using sorted by (rule sorted_remove_at)
  have d': "distinct (take i ?C @ drop (i + 1) ?C)" using dist by (rule remove_at_distinct)
  have n': "None \<notin> set (take i ?C @ drop (i + 1) ?C)"
    using nonnil remove_at_subset [of i ?C] by blast
  show "wf_small cap (hdr\<lparr>numChildren := numChildren hdr - 1\<rparr>)
           (shift_left keys i) (shift_left children i)"
    unfolding wf_small_def nc' tk tc using len s' d' n' by (intro conjI) simp_all
  have dK: "distinct ?K" using sorted by (rule sorted_wrt_less_distinct)
  have "assoc (take i ?K @ drop (i + 1) ?K) (take i ?C @ drop (i + 1) ?C) b =
          (if b = ?K ! i then None else assoc ?K ?C b)"
    using i len dK by (intro assoc_remove) simp_all
  then show "assoc (take (?nc - 1) (shift_left keys i)) (take (?nc - 1) (shift_left children i)) b =
           (if b = keys ! i then None else assoc ?K ?C b)"
    unfolding tk tc using i by simp
  show "set (shift_left children i) \<subseteq> set children"
    using i len by (intro shift_left_subset) simp
  have "\<forall>j<i. children ! j \<noteq> children ! i"
  proof (intro allI impI)
    fix j assume j: "j < i"
    have "j < length ?C" "i < length ?C" "j \<noteq> i" using i j len by simp_all
    with dist have "?C ! j \<noteq> ?C ! i" by (simp only: nth_eq_iff_index_eq not_False_eq_True)
    then show "children ! j \<noteq> children ! i" using i j by simp
  qed
  then have "removeChild_pos children (children ! i) 0 = int (0 + i)"
    using i len by (intro removeChild_pos_first) simp_all
  then show "removeChild_pos children (children ! i) 0 = int i" by simp
qed

lemma lookup_small_index:
  assumes wf: "wf_small cap hdr keys children"
    and l: "assoc (take (unat (numChildren hdr)) keys) (take (unat (numChildren hdr)) children) c = Some a"
  shows "\<exists>i<unat (numChildren hdr). keys ! i = c \<and> children ! i = Some a"
proof -
  let ?nc = "unat (numChildren hdr)"
  let ?K = "take ?nc keys" and ?C = "take ?nc children"
  from wf have len: "length keys = cap" "length children = cap" "?nc \<le> cap"
    and sorted: "sorted_wrt (<) ?K" by (simp_all add: wf_small_def)
  have dK: "distinct ?K" using sorted by (rule sorted_wrt_less_distinct)
  have "c \<in> set ?K"
  proof (rule ccontr)
    assume "c \<notin> set ?K"
    then have "assoc ?K ?C c = None" using len by (intro assoc_miss) simp_all
    with l show False by simp
  qed
  then obtain i where i: "i < length ?K" "?K ! i = c" by (auto simp: in_set_conv_nth)
  then have "assoc ?K ?C (?K ! i) = ?C ! i" using dK len by (intro assoc_nth) simp_all
  with l i have "?C ! i = Some a" by simp
  with i len show ?thesis by (intro exI [of _ i]) simp
qed

lemma small_removed4:
  assumes wf: "wf_small 4 hdr keys children" and i: "i < unat (numChildren hdr)"
  shows "removed M (Node4 hdr keys children :: 'v node) (keys ! i)
           (Node4 (hdr\<lparr>numChildren := numChildren hdr - 1\<rparr>)
              (shift_left keys i) (shift_left children i))"
proof -
  note r = small_remove [OF wf i]
  have "lookup (Node4 (hdr\<lparr>numChildren := numChildren hdr - 1\<rparr>)
              (shift_left keys i) (shift_left children i) :: 'v node) b =
        (if b = keys ! i then None else lookup (Node4 hdr keys children :: 'v node) b)" for b
    unfolding lookup_small4 [OF wf] lookup_small4 [OF r(2)] using r(3) [of b] r(1) by simp
  then show ?thesis by (simp add: removed_def same_prefix_def)
qed

lemma small_removed16:
  assumes wf: "wf_small 16 hdr keys children" and i: "i < unat (numChildren hdr)"
  shows "removed M (Node16 hdr keys children :: 'v node) (keys ! i)
           (Node16 (hdr\<lparr>numChildren := numChildren hdr - 1\<rparr>)
              (shift_left keys i) (shift_left children i))"
proof -
  note r = small_remove [OF wf i]
  have "lookup (Node16 (hdr\<lparr>numChildren := numChildren hdr - 1\<rparr>)
              (shift_left keys i) (shift_left children i) :: 'v node) b =
        (if b = keys ! i then None else lookup (Node16 hdr keys children :: 'v node) b)" for b
    unfolding lookup_small16 [OF wf] lookup_small16 [OF r(2)] using r(3) [of b] r(1) by simp
  then show ?thesis by (simp add: removed_def same_prefix_def)
qed

lemma word8_dec_eq: "(x :: 8 word) - 1 = k \<longleftrightarrow> x = k + 1"
  by auto

lemma removeChild4_inplace:
  fixes st :: "'v store"
  assumes d: "deref (nodes st) n = Some (Node4 hdr keys children)"
    and wf: "wf_small 4 hdr keys children"
    and i: "i < unat (numChildren hdr)"
    and more: "numChildren hdr \<noteq> 2"
  shows "removeChild4 M st n (children ! i) =
           Inr (put st n (Node4 (hdr\<lparr>numChildren := numChildren hdr - 1\<rparr>)
                            (shift_left keys i) (shift_left children i)))"
proof -
  have "numChildren hdr - 1 \<noteq> 1" using more by (simp add: word8_dec_eq)
  then show ?thesis
    using d small_remove(5) [OF wf i] by (simp add: removeChild4_def Let_def)
qed

lemma removeChild16_inplace:
  fixes st :: "'v store"
  assumes d: "deref (nodes st) n = Some (Node16 hdr keys children)"
    and wf: "wf_small 16 hdr keys children"
    and i: "i < unat (numChildren hdr)"
    and more: "numChildren hdr \<noteq> 4"
  shows "removeChild16 M st n (children ! i) =
           Inr (put st n (Node16 (hdr\<lparr>numChildren := numChildren hdr - 1\<rparr>)
                            (shift_left keys i) (shift_left children i)))"
proof -
  have "numChildren hdr - 1 \<noteq> 3" using more by (simp add: word8_dec_eq)
  then show ?thesis
    using d small_remove(5) [OF wf i] by (simp add: removeChild16_def Let_def)
qed

lemma small_truncate:
  assumes wf: "wf_small 16 hdr keys children" and le: "unat (numChildren hdr) \<le> 4"
    and nc: "numChildren hdr' = numChildren hdr"
  shows "wf_small 4 hdr' (take 4 keys) (take 4 children)"
    and "lookup (Node4 hdr' (take 4 keys) (take 4 children) :: 'v node) b =
           lookup (Node16 hdr keys children :: 'v node) b"
proof -
  show w: "wf_small 4 hdr' (take 4 keys) (take 4 children)"
    using wf le nc by (simp add: wf_small_def min_absorb2)
  show "lookup (Node4 hdr' (take 4 keys) (take 4 children) :: 'v node) b =
           lookup (Node16 hdr keys children :: 'v node) b"
    unfolding lookup_small4 [OF w] lookup_small16 [OF wf] using le nc by (simp add: min_absorb2)
qed

lemma removeChild16_demote:
  fixes st :: "'v store"
  assumes d: "deref (nodes st) n = Some (Node16 hdr keys children)"
    and wf: "wf_small 16 hdr keys children"
    and i: "i < unat (numChildren hdr)"
    and four: "numChildren hdr = 4"
    and fits: "length (partial hdr) = M"
  shows "\<exists>hdr'. removeChild16 M st n (children ! i) =
           Inr \<lparr>nodes = (nodes st)[n := Node16 (hdr\<lparr>numChildren := 3\<rparr>)
                                           (shift_left keys i) (shift_left children i)]
                        @ [Node4 hdr' (take 4 (shift_left keys i)) (take 4 (shift_left children i))],
                ref = Some (length (nodes st))\<rparr> \<and>
           partialLen hdr' = partialLen hdr \<and> numChildren hdr' = 3 \<and>
           take (min M (unat (partialLen hdr))) (partial hdr') =
             take (min M (unat (partialLen hdr))) (partial hdr) \<and>
           length (partial hdr') = M"
proof -
  let ?k = "shift_left keys i" and ?c = "shift_left children i"
  let ?n0 = "Node16 (hdr\<lparr>numChildren := 3\<rparr>) ?k ?c :: 'v node"
  let ?new = "Node4 (newHeader M) (replicate 4 0) (replicate 4 None) :: 'v node"
  from wf have len: "length keys = 16" "length children = 16" by (simp_all add: wf_small_def)
  have dec: "numChildren hdr - 1 = 3" using four by simp
  from copyHeader_new [of ?new M ?n0] fits
  obtain hdr' where h: "copyHeader M ?new ?n0 = Inr (setHeader ?new hdr')"
    "partialLen hdr' = partialLen hdr" "numChildren hdr' = 3"
    "take (min M (unat (partialLen hdr))) (partial hdr') =
             take (min M (unat (partialLen hdr))) (partial hdr)"
    "length (partial hdr') = M"
    by (auto simp: newHeader_def)
  have k: "copy_go (replicate 4 (0::byte)) (take 4 ?k) = take 4 ?k"
    using len by (simp add: copy_go_def)
  have c: "copy_go (replicate 4 (None::ptr)) (take 4 ?c) = take 4 ?c"
    using len by (simp add: copy_go_def)
  have "removeChild16 M st n (children ! i) =
           Inr \<lparr>nodes = (nodes st)[n := ?n0] @ [Node4 hdr' (take 4 ?k) (take 4 ?c)],
                ref = Some (length (nodes st))\<rparr>"
    using d small_remove(5) [OF wf i] dec len h(1) k c
    by (simp add: removeChild16_def allocNode_def Let_def put_def store_update_all nth_append list_update_append)
  with h show ?thesis by blast
qed

lemma getPartial_setPartial: "\<not> isLeaf n \<Longrightarrow> getPartial (setPartial n p) = p"
  by (simp add: getPartial_def setPartial_def getHeader_setHeader)

lemma getPartialLen_setPartial: "getPartialLen (setPartial n p) = getPartialLen n"
  by (cases n) (simp_all add: getPartialLen_def setPartial_def)

lemma setPartial_Node4: "setPartial (Node4 hdr ks cs) p = Node4 (hdr\<lparr>partial := p\<rparr>) ks cs"
  by (simp add: setPartial_def)

lemma list_update_same: "h ! n = v \<Longrightarrow> ca \<noteq> n \<Longrightarrow> h[ca := x, n := v] = h[ca := x]"
  by (metis list_update_id nth_list_update_neq)

lemma removeChild4_concat_run:
  fixes h :: "'v heap"
  assumes n: "h ! n = Node4 hdr keys children" and ca: "h ! ca = child"
    and ne: "ca \<noteq> n" and bn: "n < length h" and bc: "ca < length h"
    and internal: "\<not> isLeaf child"
    and ln: "length (partial hdr) = M" and lc: "length (getPartial child) = M"
  shows "\<exists>p k. removeChild4_concat M h n ca =
           Inr (h[n := Node4 (hdr\<lparr>partial := p\<rparr>) keys children,
                  ca := setPartialLen
                          (setPartial child (copy_go (getPartial child) (take k p)))
                          (getPartialLen child + partialLen hdr + 1)]) \<and>
           length p = M \<and> k = min M (unat (partialLen hdr) + 1 + unat (getPartialLen child)) \<and>
           take k p = take M (take (min M (unat (partialLen hdr))) (partial hdr)
                              @ keys ! 0
                              # take (min M (unat (getPartialLen child))) (getPartial child))"
proof -
  let ?P = "unat (partialLen hdr)" and ?Pc = "unat (getPartialLen child)"
  let ?cp = "getPartial child"
  consider (long) "M \<le> ?P" | (one) "?P < M" "M \<le> ?P + 1" | (two) "?P + 1 < M"
    by linarith
  then show ?thesis
  proof cases
    case long
    have run: "removeChild4_concat M h n ca =
           Inr (h[n := Node4 (hdr\<lparr>partial := partial hdr\<rparr>) keys children,
                  ca := setPartialLen
                          (setPartial child (copy_go ?cp (take M (partial hdr))))
                          (getPartialLen child + partialLen hdr + 1)])"
      using n ca ne bn bc internal ln lc long
      by (simp add: removeChild4_concat_def Let_def min_absorb1 min_absorb2
            getPartialLen_setPartial list_update_swap [of n ca] list_update_same)
    have "take M (partial hdr) =
            take M (take (min M ?P) (partial hdr) @ keys ! 0 # take (min M ?Pc) ?cp)"
      using ln long by (simp add: min_absorb1)
    moreover have "M = min M (?P + 1 + ?Pc)" using long by simp
    ultimately show ?thesis using run ln by blast
  next
    case one
    then have M: "M = ?P + 1" by simp
    let ?p1 = "(partial hdr)[?P := keys ! 0]"
    have run: "removeChild4_concat M h n ca =
           Inr (h[n := Node4 (hdr\<lparr>partial := ?p1\<rparr>) keys children,
                  ca := setPartialLen
                          (setPartial child (copy_go ?cp (take M ?p1)))
                          (getPartialLen child + partialLen hdr + 1)])"
      using n ca ne bn bc internal ln lc one
      by (simp add: removeChild4_concat_def Let_def min_absorb1 min_absorb2
            getPartial_setPartial getPartialLen_setPartial setPartial_Node4
            list_update_swap [of n ca])
    have "?p1 = take ?P (partial hdr) @ [keys ! 0]"
      using ln one by (simp add: upd_conv_take_nth_drop)
    moreover have "M - ?P = Suc 0" using one by simp
    ultimately have "take M ?p1 =
            take M (take (min M ?P) (partial hdr) @ keys ! 0 # take (min M ?Pc) ?cp)"
      using ln one by (simp add: min_absorb2)
    moreover have "M = min M (?P + 1 + ?Pc)" using one by simp
    moreover have "length ?p1 = M" using ln by simp
    ultimately show ?thesis using run by blast
  next
    case two
    let ?sub = "min ?Pc (M - (?P + 1))"
    let ?p1 = "(partial hdr)[?P := keys ! 0]"
    let ?p2 = "take (?P + 1) ?p1 @ copy_go (drop (?P + 1) ?p1) (take ?sub ?cp)"
    have arith: "\<not> M < M - Suc ?P" by simp
    have run: "removeChild4_concat M h n ca =
           Inr (h[n := Node4 (hdr\<lparr>partial := ?p2\<rparr>) keys children,
                  ca := setPartialLen
                          (setPartial child (copy_go ?cp (take (?P + 1 + ?sub) ?p2)))
                          (getPartialLen child + partialLen hdr + 1)])"
      using n ca ne bn bc internal ln lc two arith
      by (simp add: removeChild4_concat_def Let_def min_absorb1 min_absorb2
            getPartial_setPartial getPartialLen_setPartial setPartial_Node4
            list_update_swap [of n ca])
    have p1: "take (?P + 1) ?p1 = take ?P (partial hdr) @ [keys ! 0]"
      using ln two by (simp add: upd_conv_take_nth_drop)
    have lsub: "length (take ?sub ?cp) = ?sub" using lc two by simp
    have cg: "copy_go (drop (?P + 1) ?p1) (take ?sub ?cp) =
                take ?sub ?cp @ drop ?sub (drop (?P + 1) ?p1)"
      using copy_go_short [of "take ?sub ?cp" "drop (?P + 1) ?p1"] lsub ln two by simp
    have "take (?P + 1 + ?sub) ?p2 = take ?P (partial hdr) @ keys ! 0 # take ?sub ?cp"
      unfolding cg p1 using ln lc two by simp
    moreover have "take M (take (min M ?P) (partial hdr) @ keys ! 0 # take (min M ?Pc) ?cp) =
                     take ?P (partial hdr) @ keys ! 0 # take ?sub ?cp"
    proof -
      have "M - ?P = Suc (M - (?P + 1))" using two by simp
      moreover have "min (M - (?P + 1)) (min M ?Pc) = ?sub" by simp
      ultimately show ?thesis using ln two by (simp add: min_absorb2)
    qed
    moreover have "?P + 1 + ?sub = min M (?P + 1 + ?Pc)" using two by simp
    moreover have "length ?p2 = M" using ln lc two by (simp add: p1 min_absorb2)
    ultimately show ?thesis using run by metis
  qed
qed

lemma shift_left_survivor:
  assumes "i < 2" "2 \<le> length xs"
  shows "shift_left xs i ! 0 = xs ! (1 - i)"
proof -
  have i: "i < length xs" using assms by simp
  from assms(1) consider "i = 0" | "i = 1" by linarith
  then show ?thesis
  proof cases
    case 1
    with assms(2) show ?thesis unfolding shift_left_eq [OF i] by (simp add: nth_append)
  next
    case 2
    with assms(2) show ?thesis unfolding shift_left_eq [OF i] by (simp add: nth_append)
  qed
qed

lemma removeChild4_collapse_run:
  fixes st :: "'v store"
  assumes d: "deref (nodes st) n = Some (Node4 hdr keys children)"
    and wf: "wf_small 4 hdr keys children"
    and two: "numChildren hdr = 2"
    and i: "i < 2"
    and s: "children ! (1 - i) = Some ca"
    and dc: "deref (nodes st) ca = Some child"
    and ne: "ca \<noteq> n"
  shows "removeChild4 M st n (children ! i) =
           (if isLeaf child
            then Inr \<lparr>nodes = (nodes st)[n := Node4 (hdr\<lparr>numChildren := 1\<rparr>)
                                             (shift_left keys i) (shift_left children i)],
                      ref = Some ca\<rparr>
            else case removeChild4_concat M
                        ((nodes st)[n := Node4 (hdr\<lparr>numChildren := 1\<rparr>)
                                             (shift_left keys i) (shift_left children i)]) n ca of
                   Inl e \<Rightarrow> Inl e
                 | Inr h \<Rightarrow> Inr \<lparr>nodes = h, ref = Some ca\<rparr>)"
proof -
  from wf have len: "length keys = 4" "length children = 4" by (simp_all add: wf_small_def)
  have i': "i < unat (numChildren hdr)" using i two by simp
  have c0: "shift_left children i ! 0 = Some ca"
    using shift_left_survivor [OF i, of children] len s by simp
  have dec: "numChildren hdr - 1 = 1" using two by simp
  have dc': "deref ((nodes st)[n := x]) ca = Some child" for x
    using dc ne by (auto simp: deref_def split: if_splits)
  show ?thesis
    using d small_remove(5) [OF wf i'] dec c0 dc'
    by (simp add: removeChild4_def Let_def put_def store_update_all split: sum.splits)
qed

lemma removeChild4_collapse_internal:
  fixes st :: "'v store"
  assumes d: "deref (nodes st) n = Some (Node4 hdr keys children)"
    and wf: "wf_small 4 hdr keys children"
    and two: "numChildren hdr = 2"
    and i: "i < 2"
    and s: "children ! (1 - i) = Some ca"
    and dc: "deref (nodes st) ca = Some child"
    and ne: "ca \<noteq> n"
    and internal: "\<not> isLeaf child"
    and ln: "length (partial hdr) = M" and lc: "length (getPartial child) = M"
    and cat: "cat = take M (take (min M (unat (partialLen hdr))) (partial hdr)
                            @ keys ! (1 - i)
                            # take (min M (unat (getPartialLen child))) (getPartial child))"
  shows "\<exists>p. removeChild4 M st n (children ! i) =
           Inr \<lparr>nodes = (nodes st)
                   [n := Node4 (hdr\<lparr>numChildren := 1, partial := p\<rparr>)
                           (shift_left keys i) (shift_left children i),
                    ca := setPartialLen
                            (setPartial child (cat @ drop (length cat) (getPartial child)))
                            (getPartialLen child + partialLen hdr + 1)],
                ref = Some ca\<rparr> \<and>
           length p = M"
proof -
  let ?hdr1 = "hdr\<lparr>numChildren := 1\<rparr>"
  let ?n1 = "Node4 ?hdr1 (shift_left keys i) (shift_left children i) :: 'v node"
  let ?h1 = "(nodes st)[n := ?n1]"
  from wf have len: "length keys = 4" "length children = 4" by (simp_all add: wf_small_def)
  from d dc have b: "n < length (nodes st)" "ca < length (nodes st)" "nodes st ! ca = child"
    by (auto simp: deref_def split: if_splits)
  have k0: "shift_left keys i ! 0 = keys ! (1 - i)"
    using shift_left_survivor [OF i, of keys] len by simp
  have "\<exists>p k. removeChild4_concat M ?h1 n ca =
           Inr (?h1[n := Node4 (?hdr1\<lparr>partial := p\<rparr>) (shift_left keys i) (shift_left children i),
                  ca := setPartialLen
                          (setPartial child (copy_go (getPartial child) (take k p)))
                          (getPartialLen child + partialLen ?hdr1 + 1)]) \<and>
           length p = M \<and> k = min M (unat (partialLen ?hdr1) + 1 + unat (getPartialLen child)) \<and>
           take k p = take M (take (min M (unat (partialLen ?hdr1))) (partial ?hdr1)
                              @ shift_left keys i ! 0
                              # take (min M (unat (getPartialLen child))) (getPartial child))"
    using b ne internal ln lc by (intro removeChild4_concat_run) simp_all
  then obtain p k where r: "removeChild4_concat M ?h1 n ca =
           Inr (?h1[n := Node4 (?hdr1\<lparr>partial := p\<rparr>) (shift_left keys i) (shift_left children i),
                  ca := setPartialLen
                          (setPartial child (copy_go (getPartial child) (take k p)))
                          (getPartialLen child + partialLen ?hdr1 + 1)])"
    and p: "length p = M" and k: "k = min M (unat (partialLen ?hdr1) + 1 + unat (getPartialLen child))"
    and t: "take k p = cat" unfolding cat k0 by auto
  have lcat: "length cat = k" using t p k by (metis length_take min.absorb4 min.cobounded1 min_def)
  have "copy_go (getPartial child) (take k p) = cat @ drop (length cat) (getPartial child)"
    unfolding t using lcat lc k by (intro copy_go_short) simp
  with r p show ?thesis
    unfolding removeChild4_collapse_run [OF d wf two i s dc ne, of M]
    using internal by (intro exI [of _ p]) simp
qed

subsection \<open>Node48 and Node256: removal in place\<close>

lemma wf48_remove:
  fixes c :: byte
  assumes wf: "wf48 hdr keys children" and present: "keys ! unat c \<noteq> 0"
  shows "wf48 (hdr\<lparr>numChildren := numChildren hdr - 1\<rparr>)
           (keys[unat c := 0]) (children[unat (keys ! unat c - 1) := None])"
    and "lookup (Node48 (hdr\<lparr>numChildren := numChildren hdr - 1\<rparr>)
                   (keys[unat c := 0]) (children[unat (keys ! unat c - 1) := None]) :: 'v node) b =
           (if b = c then None else lookup (Node48 hdr keys children :: 'v node) b)"
    and "unat (numChildren hdr - 1) = unat (numChildren hdr) - 1"
    and "0 < unat (numChildren hdr)"
proof -
  let ?hdr' = "hdr\<lparr>numChildren := numChildren hdr - 1\<rparr>"
  let ?nz = "\<lambda>k::byte. k \<noteq> 0" and ?nn = "\<lambda>p::ptr. p \<noteq> None"
  let ?slot = "unat (keys ! unat c - 1)"
  let ?keys' = "keys[unat c := 0]" and ?children' = "children[?slot := None]"
  from wf have lk: "length keys = 256" and lc: "length children = 48"
    and cntk: "unat (numChildren hdr) = length (filter ?nz keys)"
    and cntc: "unat (numChildren hdr) = length (filter ?nn children)"
    and cons: "\<forall>k \<in> set keys. k \<noteq> 0 \<longrightarrow> unat k \<le> 48 \<and> children ! (unat k - 1) \<noteq> None"
    and dk: "distinct (filter ?nz keys)" and dc: "distinct (filter ?nn children)"
    by (simp_all add: wf48_def)
  have c: "unat c < length keys" using lk unat_byte_less [of c] by simp
  note s = wf48_slot [OF wf unat_byte_less present]
  have c1: "length (filter ?nz ?keys') + 1 = length (filter ?nz keys)"
    using c present by (intro filter_update_del) simp_all
  have c2: "length (filter ?nn ?children') + 1 = length (filter ?nn children)"
    using s(2,3) lc by (intro filter_update_del) simp_all
  show pos: "0 < unat (numChildren hdr)" using c1 cntk by linarith
  then have "numChildren hdr \<noteq> 0" by auto
  then show dec: "unat (numChildren hdr - 1) = unat (numChildren hdr) - 1" by (rule unat_dec8)
  have other: "unat (keys ! j - 1) \<noteq> ?slot" if "j < 256" "j \<noteq> unat c" "keys ! j \<noteq> 0" for j
  proof
    assume e: "unat (keys ! j - 1) = ?slot"
    note sj = wf48_slot [OF wf that(1,3)]
    from e sj(1,4) s(1,4) have "unat (keys ! j) = unat (keys ! unat c)" by simp
    then have "keys ! j = keys ! unat c" by (simp add: word_unat_eq_iff)
    with distinct_filter_nth [OF dk, of j "unat c"] that lk c show False by simp
  qed
  have cons': "\<forall>k \<in> set ?keys'. k \<noteq> 0 \<longrightarrow> unat k \<le> 48 \<and> ?children' ! (unat k - 1) \<noteq> None"
  proof (intro ballI impI)
    fix k assume k: "k \<in> set ?keys'" "k \<noteq> 0"
    then obtain j where j: "j < 256" "?keys' ! j = k" using lk by (auto simp: in_set_conv_nth)
    with k(2) c have jc: "j \<noteq> unat c" by auto
    with j have kj: "keys ! j = k" by simp
    note sj = wf48_slot [OF wf j(1)]
    from other [OF j(1) jc] kj k(2) sj show "unat k \<le> 48 \<and> ?children' ! (unat k - 1) \<noteq> None"
      by auto
  qed
  have d1: "distinct (filter ?nz ?keys')" using dk by (rule distinct_filter_update_del) simp
  have d2: "distinct (filter ?nn ?children')" using dc by (rule distinct_filter_update_del) simp
  have k1: "unat (numChildren hdr - 1) = length (filter ?nz ?keys')"
    using c1 cntk dec by linarith
  have k2: "unat (numChildren hdr - 1) = length (filter ?nn ?children')"
    using c2 cntc dec by linarith
  show wf': "wf48 ?hdr' ?keys' ?children'"
    unfolding wf48_def using lk lc k1 k2 cons' d1 d2 by simp
  show "lookup (Node48 ?hdr' ?keys' ?children' :: 'v node) b =
           (if b = c then None else lookup (Node48 hdr keys children :: 'v node) b)"
  proof (cases "b = c")
    case True
    with c show ?thesis by (simp add: lookup_wf48 [OF wf'])
  next
    case False
    then have ne: "unat b \<noteq> unat c" by (simp add: word_unat_eq_iff)
    have kb: "?keys' ! unat b = keys ! unat b" using ne by simp
    show ?thesis
    proof (cases "keys ! unat b = 0")
      case True
      with False kb show ?thesis by (simp add: lookup_wf48 [OF wf'] lookup_wf48 [OF wf])
    next
      case nzb: False
      from other [OF unat_byte_less ne nzb] False kb nzb show ?thesis
        by (simp add: lookup_wf48 [OF wf'] lookup_wf48 [OF wf])
    qed
  qed
qed

lemma removeChild48_inplace:
  fixes st :: "'v store"
  assumes d: "deref (nodes st) n = Some (Node48 hdr keys children)"
    and wf: "wf48 hdr keys children"
    and present: "keys ! unat c \<noteq> 0"
    and more: "numChildren hdr \<noteq> 13"
  shows "removeChild48 M st n c =
           Inr (put st n (Node48 (hdr\<lparr>numChildren := numChildren hdr - 1\<rparr>)
                  (keys[unat c := 0]) (children[unat (keys ! unat c - 1) := None])))"
proof -
  have "numChildren hdr - 1 \<noteq> 12" using more by (simp add: word8_dec_eq)
  moreover have "\<not> length children \<le> unat (keys ! unat c - 1)"
    using wf48_slot(2) [OF wf unat_byte_less present] wf by (simp add: wf48_def)
  ultimately show ?thesis using d by (simp add: removeChild48_def Let_def)
qed

lemma wf256_remove:
  fixes c :: byte
  assumes wf: "wf256 hdr children" and present: "children ! unat c \<noteq> None"
  shows "wf256 (hdr\<lparr>numChildren := numChildren hdr - 1\<rparr>) (children[unat c := None])"
    and "lookup (Node256 (hdr\<lparr>numChildren := numChildren hdr - 1\<rparr>)
                   (children[unat c := None]) :: 'v node) b =
           (if b = c then None else lookup (Node256 hdr children :: 'v node) b)"
    and "unat (numChildren hdr - 1) = unat (numChildren hdr) - 1"
    and "0 < unat (numChildren hdr)"
proof -
  let ?nn = "\<lambda>p::ptr. p \<noteq> None"
  from wf have lc: "length children = 256"
    and cnt: "unat (numChildren hdr) = length (filter ?nn children)"
    and dc: "distinct (filter ?nn children)" by (simp_all add: wf256_def)
  have c: "unat c < length children" using lc unat_byte_less [of c] by simp
  have c1: "length (filter ?nn (children[unat c := None])) + 1 = length (filter ?nn children)"
    using c present by (intro filter_update_del) simp_all
  show pos: "0 < unat (numChildren hdr)" using c1 cnt by linarith
  then have "numChildren hdr \<noteq> 0" by auto
  then show dec: "unat (numChildren hdr - 1) = unat (numChildren hdr) - 1" by (rule unat_dec8)
  have d1: "distinct (filter ?nn (children[unat c := None]))"
    using dc by (rule distinct_filter_update_del) simp
  have k1: "unat (numChildren hdr - 1) = length (filter ?nn (children[unat c := None]))"
    using c1 cnt dec by linarith
  show "wf256 (hdr\<lparr>numChildren := numChildren hdr - 1\<rparr>) (children[unat c := None])"
    unfolding wf256_def using lc k1 d1 by simp
  show "lookup (Node256 (hdr\<lparr>numChildren := numChildren hdr - 1\<rparr>)
                   (children[unat c := None]) :: 'v node) b =
           (if b = c then None else lookup (Node256 hdr children :: 'v node) b)"
    using c by (simp add: lookup_Node256 word_unat_eq_iff nth_list_update)
qed

lemma removeChild256_inplace:
  fixes st :: "'v store"
  assumes d: "deref (nodes st) n = Some (Node256 hdr children)"
    and more: "numChildren hdr \<noteq> 38"
  shows "removeChild256 M st n c =
           Inr (put st n (Node256 (hdr\<lparr>numChildren := numChildren hdr - 1\<rparr>)
                  (children[unat c := None])))"
proof -
  have "numChildren hdr - 1 \<noteq> 37" using more by (simp add: word8_dec_eq)
  then show ?thesis using d by (simp add: removeChild256_def Let_def)
qed

subsection \<open>The rebuilding loops of the demotions\<close>

lemma take_Suc_update: "i < length xs \<Longrightarrow> take (Suc i) (xs[i := v]) = take i xs @ [v]"
  by (simp add: take_Suc_conv_app_nth)

lemma removeChild48_shrink_char:
  assumes "i \<le> 256" "length k16 = length c16"
    and "child + length (filter (\<lambda>j. keys ! j \<noteq> 0) [i..<256]) \<le> length k16"
    and "\<forall>j<256. keys ! j \<noteq> 0 \<longrightarrow> unat (keys ! j - 1) < length children"
  shows "removeChild48_shrink keys children k16 c16 child i =
           Inr (take child k16 @ map of_nat (filter (\<lambda>j. keys ! j \<noteq> 0) [i..<256])
                  @ drop (child + length (filter (\<lambda>j. keys ! j \<noteq> 0) [i..<256])) k16,
                take child c16
                  @ map (\<lambda>j. children ! unat (keys ! j - 1)) (filter (\<lambda>j. keys ! j \<noteq> 0) [i..<256])
                  @ drop (child + length (filter (\<lambda>j. keys ! j \<noteq> 0) [i..<256])) c16)"
  using assms
proof (induction keys children k16 c16 child i rule: removeChild48_shrink.induct)
  case (1 keys children k16 c16 child i)
  let ?J = "\<lambda>i. filter (\<lambda>j. keys ! j \<noteq> 0) [i..<256]"
  show ?case
  proof (cases "i < 256")
    case False
    with "1.prems"(1) have "i = 256" by simp
    then show ?thesis by (subst removeChild48_shrink.simps) simp
  next
    case True
    then have le: "i + 1 \<le> 256" by simp
    have upt: "[i..<256] = i # [i + 1..<256]" using True by (simp add: upt_conv_Cons)
    show ?thesis
    proof (cases "keys ! i \<noteq> 0")
      case nz: True
      have J: "?J i = i # ?J (i + 1)" using nz by (subst upt) simp
      have room: "child < length k16" "child < length c16"
        using "1.prems"(2,3) by (simp_all add: J)
      have inb: "\<not> length k16 \<le> child" "\<not> length children \<le> unat (keys ! i - 1)"
        using room "1.prems"(4) True nz by (simp_all add: not_le)
      let ?k = "k16[child := of_nat i]" and ?c = "c16[child := children ! unat (keys ! i - 1)]"
      have e: "removeChild48_shrink keys children k16 c16 child i =
                 removeChild48_shrink keys children ?k ?c (child + 1) (i + 1)"
        using True nz inb by (subst removeChild48_shrink.simps) simp
      have l: "length ?k = length ?c" using "1.prems"(2) by simp
      have r: "child + 1 + length (?J (i + 1)) \<le> length ?k" using "1.prems"(3) by (simp add: J)
      note ih = "1.IH"(1) [OF True nz inb le l r "1.prems"(4)]
      show ?thesis
        unfolding e ih J using room by (simp add: take_Suc_update)
    next
      case z: False
      have J: "?J i = ?J (i + 1)" using z by (subst upt) simp
      have e: "removeChild48_shrink keys children k16 c16 child i =
                 removeChild48_shrink keys children k16 c16 child (i + 1)"
        using True z by (subst removeChild48_shrink.simps) simp
      have r: "child + length (?J (i + 1)) \<le> length k16" using "1.prems"(3) by (simp add: J)
      note ih = "1.IH"(2) [OF True z le "1.prems"(2) r "1.prems"(4)]
      show ?thesis unfolding e ih J ..
    qed
  qed
qed

lemma removeChild256_shrink_char:
  assumes "i \<le> 256" "length k48 = 256"
    and "pos + length (filter (\<lambda>j. children ! j \<noteq> None) [i..<256]) \<le> length c48"
  shows "\<exists>k48'. removeChild256_shrink children k48 c48 pos i =
           Inr (k48', take pos c48
                  @ map (\<lambda>j. children ! j) (filter (\<lambda>j. children ! j \<noteq> None) [i..<256])
                  @ drop (pos + length (filter (\<lambda>j. children ! j \<noteq> None) [i..<256])) c48) \<and>
           length k48' = 256 \<and>
           (\<forall>t<length (filter (\<lambda>j. children ! j \<noteq> None) [i..<256]).
              k48' ! (filter (\<lambda>j. children ! j \<noteq> None) [i..<256] ! t) = of_nat (pos + t + 1)) \<and>
           (\<forall>j<256. j \<notin> set (filter (\<lambda>j. children ! j \<noteq> None) [i..<256]) \<longrightarrow>
              k48' ! j = k48 ! j)"
  using assms
proof (induction children k48 c48 pos i rule: removeChild256_shrink.induct)
  case (1 children k48 c48 pos i)
  let ?J = "\<lambda>i. filter (\<lambda>j. children ! j \<noteq> None) [i..<256]"
  show ?case
  proof (cases "i < 256")
    case False
    with "1.prems"(1) have "i = 256" by simp
    then show ?thesis using "1.prems"(2) by (subst removeChild256_shrink.simps) simp
  next
    case True
    then have le: "i + 1 \<le> 256" by simp
    have upt: "[i..<256] = i # [i + 1..<256]" using True by (simp add: upt_conv_Cons)
    show ?thesis
    proof (cases "children ! i \<noteq> None")
      case nn: True
      have J: "?J i = i # ?J (i + 1)" using nn by (subst upt) (simp del: not_None_eq)
      have room: "pos < length c48" using "1.prems"(3) by (simp add: J del: not_None_eq)
      then have inb: "\<not> length c48 \<le> pos" by simp
      let ?k = "k48[i := of_nat (pos + 1)]" and ?c = "c48[pos := children ! i]"
      have e: "removeChild256_shrink children k48 c48 pos i =
                 removeChild256_shrink children ?k ?c (pos + 1) (i + 1)"
        using True nn inb by (subst removeChild256_shrink.simps) (simp del: not_None_eq)
      have l: "length ?k = 256" using "1.prems"(2) by simp
      have r: "pos + 1 + length (?J (i + 1)) \<le> length ?c"
        using "1.prems"(3) by (simp add: J del: not_None_eq)
      from "1.IH"(1) [OF True nn inb le l r]
      obtain k48' where ih:
        "removeChild256_shrink children ?k ?c (pos + 1) (i + 1) =
           Inr (k48', take (pos + 1) ?c @ map (\<lambda>j. children ! j) (?J (i + 1))
                  @ drop (pos + 1 + length (?J (i + 1))) ?c)"
        "length k48' = 256"
        "\<forall>t<length (?J (i + 1)). k48' ! (?J (i + 1) ! t) = of_nat (pos + 1 + t + 1)"
        "\<forall>j<256. j \<notin> set (?J (i + 1)) \<longrightarrow> k48' ! j = ?k ! j"
        by blast
      have notin: "i \<notin> set (?J (i + 1))" by simp
      have c: "take (pos + 1) ?c @ map (\<lambda>j. children ! j) (?J (i + 1))
                  @ drop (pos + 1 + length (?J (i + 1))) ?c =
               take pos c48 @ map (\<lambda>j. children ! j) (?J i) @ drop (pos + length (?J i)) c48"
        unfolding J using room by (simp add: take_Suc_update)
      have a: "\<forall>t<length (?J i). k48' ! (?J i ! t) = of_nat (pos + t + 1)"
      proof (intro allI impI)
        fix t assume t: "t < length (?J i)"
        show "k48' ! (?J i ! t) = of_nat (pos + t + 1)"
        proof (cases t)
          case 0
          with ih(4) notin True "1.prems"(2) show ?thesis unfolding J by simp
        next
          case (Suc t')
          with t ih(3) show ?thesis unfolding J by simp
        qed
      qed
      have b: "\<forall>j<256. j \<notin> set (?J i) \<longrightarrow> k48' ! j = k48 ! j"
        using ih(4) unfolding J by simp
      from a b c ih(1,2) show ?thesis unfolding e by simp
    next
      case z: False
      have J: "?J i = ?J (i + 1)" using z by (subst upt) simp
      have e: "removeChild256_shrink children k48 c48 pos i =
                 removeChild256_shrink children k48 c48 pos (i + 1)"
        using True z by (subst removeChild256_shrink.simps) simp
      have r: "pos + length (?J (i + 1)) \<le> length c48" using "1.prems"(3) unfolding J .
      from "1.IH"(2) [OF True z le "1.prems"(2) r] show ?thesis unfolding e J .
    qed
  qed
qed

lemma distinct_filter_nthI:
  assumes "\<And>i j. i < length xs \<Longrightarrow> j < length xs \<Longrightarrow> P (xs ! i) \<Longrightarrow> xs ! i = xs ! j \<Longrightarrow> i = j"
  shows "distinct (filter P xs)"
  using assms
proof (induction xs)
  case Nil
  then show ?case by simp
next
  case (Cons x xs)
  have tl: "distinct (filter P xs)"
  proof (rule Cons.IH)
    fix i j assume "i < length xs" "j < length xs" "P (xs ! i)" "xs ! i = xs ! j"
    with Cons.prems [of "Suc i" "Suc j"] show "i = j" by simp
  qed
  have "x \<notin> set xs" if "P x"
  proof
    assume "x \<in> set xs"
    then obtain j where "j < length xs" "xs ! j = x" by (auto simp: in_set_conv_nth)
    with Cons.prems [of 0 "Suc j"] that show False by simp
  qed
  with tl show ?case by auto
qed

subsection \<open>Demotion of a Node48\<close>

lemma filter_indices:
  "filter P xs = map (\<lambda>j. xs ! j) (filter (\<lambda>j. P (xs ! j)) [0..<length xs])"
proof -
  have "filter P (map (\<lambda>j. xs ! j) [0..<length xs]) =
          map (\<lambda>j. xs ! j) (filter (\<lambda>j. P (xs ! j)) [0..<length xs])"
    by (simp add: filter_map comp_def)
  then show ?thesis by (simp add: map_nth)
qed

lemma sorted_map_of_nat_byte:
  assumes "sorted_wrt (<) J" "\<forall>j\<in>set J. j < 256"
  shows "sorted_wrt (<) (map of_nat J :: byte list)"
proof -
  have "sorted_wrt (\<lambda>a b. (of_nat a :: byte) < of_nat b) J"
  proof (rule sorted_wrt_mono_rel [OF _ assms(1)])
    fix a b assume "a \<in> set J" "b \<in> set J" "a < b"
    with assms(2) have "a < 256" "b < 256" by auto
    then have "unat (of_nat a :: byte) = a" "unat (of_nat b :: byte) = b"
      by (simp_all add: unat_of_nat_byte)
    with \<open>a < b\<close> show "(of_nat a :: byte) < of_nat b" by (simp add: word_less_nat_alt)
  qed
  then show ?thesis by (simp add: sorted_wrt_map)
qed

lemma shrink48_node:
  assumes wf: "wf48 hdr keys children"
    and le: "unat (numChildren hdr) \<le> 16"
    and nc: "numChildren hdr' = numChildren hdr"
  shows "\<exists>keys16 children16.
           removeChild48_shrink keys children (replicate 16 0) (replicate 16 None) 0 0 =
             Inr (keys16, children16) \<and>
           wf_small 16 hdr' keys16 children16 \<and>
           set children16 \<subseteq> insert None (set children) \<and>
           (\<forall>b. lookup (Node16 hdr' keys16 children16 :: 'v node) b =
                  lookup (Node48 hdr keys children :: 'v node) b)"
proof -
  let ?nz = "\<lambda>k::byte. k \<noteq> 0" and ?nn = "\<lambda>p::ptr. p \<noteq> None"
  define J where "J = filter (\<lambda>j. keys ! j \<noteq> 0) [0..<256]"
  define f where "f = (\<lambda>j. children ! unat (keys ! j - 1))"
  from wf have lk: "length keys = 256" and lc: "length children = 48"
    and cntk: "unat (numChildren hdr) = length (filter ?nz keys)"
    and dk: "distinct (filter ?nz keys)" and dc: "distinct (filter ?nn children)"
    by (simp_all add: wf48_def)
  have fk: "filter ?nz keys = map (\<lambda>j. keys ! j) J"
    using filter_indices [of ?nz keys] lk by (simp add: J_def)
  have lJ: "length J = unat (numChildren hdr)" using cntk fk by simp
  have J: "j \<in> set J \<longleftrightarrow> j < 256 \<and> keys ! j \<noteq> 0" for j by (auto simp: J_def)
  have dJ: "distinct J" by (simp add: J_def)
  have sJ: "sorted_wrt (<) J" unfolding J_def by (intro sorted_wrt_filter) simp
  have slots: "\<forall>j<256. keys ! j \<noteq> 0 \<longrightarrow> unat (keys ! j - 1) < length children"
    using wf48_slot(2) [OF wf] lc by simp
  define keys16 :: "byte list" where "keys16 = map of_nat J @ replicate (16 - length J) 0"
  define children16 where "children16 = map f J @ replicate (16 - length J) None"
  have run: "removeChild48_shrink keys children (replicate 16 0) (replicate 16 None) 0 0 =
               Inr (keys16, children16)"
    using removeChild48_shrink_char [of 0 "replicate 16 0" "replicate 16 None" 0 keys children]
      slots lJ le
    by (simp add: J_def [symmetric] f_def [symmetric] keys16_def children16_def)
  have tk: "take (length J) keys16 = map of_nat J" by (simp add: keys16_def)
  have tc: "take (length J) children16 = map f J" by (simp add: children16_def)
  have srt: "sorted_wrt (<) (map of_nat J :: byte list)"
    using sJ J by (intro sorted_map_of_nat_byte) simp_all
  have nonnil: "f j \<noteq> None" if "j \<in> set J" for j
    using wf48_slot(3) [OF wf, of j] that J f_def by simp
  have inj: "inj_on f (set J)"
  proof (rule inj_onI)
    fix a b assume a: "a \<in> set J" and b: "b \<in> set J" and e: "f a = f b"
    from a b J have ab: "a < 256" "keys ! a \<noteq> 0" "b < 256" "keys ! b \<noteq> 0" by simp_all
    note sa = wf48_slot [OF wf ab(1,2)] and sb = wf48_slot [OF wf ab(3,4)]
    have "unat (keys ! a - 1) = unat (keys ! b - 1)"
      using distinct_filter_nth [OF dc, of "unat (keys ! a - 1)" "unat (keys ! b - 1)"]
        sa(2,3) sb(2) lc e by (simp add: f_def)
    with sa(1,4) sb(1,4) have "unat (keys ! a) = unat (keys ! b)" by simp
    then have "keys ! a = keys ! b" by (simp add: word_unat_eq_iff)
    with distinct_filter_nth [OF dk, of a b] ab lk show "a = b" by simp
  qed
  have dist: "distinct (map f J)" using dJ inj by (simp add: distinct_map)
  have nn: "None \<notin> set (map f J)" using nonnil by (auto simp del: not_None_eq) metis
  have wf': "wf_small 16 hdr' keys16 children16"
    unfolding wf_small_def nc lJ [symmetric] tk tc
    using srt dist nn lJ le by (simp add: keys16_def children16_def)
  have sub: "set children16 \<subseteq> insert None (set children)"
  proof -
    have "f j \<in> set children" if "j \<in> set J" for j
      using that J slots by (auto simp: f_def)
    then show ?thesis by (auto simp: children16_def)
  qed
  have look: "lookup (Node16 hdr' keys16 children16 :: 'v node) b =
              lookup (Node48 hdr keys children :: 'v node) b" for b
  proof -
    have l16: "lookup (Node16 hdr' keys16 children16 :: 'v node) b =
                 assoc (map of_nat J) (map f J) b"
      unfolding lookup_small16 [OF wf'] nc lJ [symmetric] tk tc ..
    have dm: "distinct (map of_nat J :: byte list)"
      using srt by (rule sorted_wrt_less_distinct)
    show ?thesis
    proof (cases "keys ! unat b = 0")
      case True
      have "b \<notin> set (map of_nat J :: byte list)"
      proof
        assume "b \<in> set (map of_nat J :: byte list)"
        then obtain j where j: "j \<in> set J" "b = of_nat j" by auto
        with J have "unat b = j" by (simp add: unat_of_nat_byte)
        with j(1) J True show False by simp
      qed
      then have "assoc (map of_nat J) (map f J) b = None" by (intro assoc_miss) simp_all
      with True l16 show ?thesis by (simp add: lookup_wf48 [OF wf])
    next
      case False
      then have "unat b \<in> set J" using J unat_byte_less [of b] by simp
      then obtain t where t: "t < length J" "J ! t = unat b" by (auto simp: in_set_conv_nth)
      have "assoc (map of_nat J) (map f J) ((map of_nat J :: byte list) ! t) = map f J ! t"
        using dm t(1) by (intro assoc_nth) simp_all
      with t have "assoc (map of_nat J) (map f J) b = f (unat b)" by simp
      with False l16 show ?thesis by (simp add: lookup_wf48 [OF wf] f_def)
    qed
  qed
  from run wf' sub look show ?thesis by blast
qed

lemma removeChild48_demote:
  fixes st :: "'v store"
  assumes d: "deref (nodes st) n = Some (Node48 hdr keys children)"
    and wf: "wf48 hdr keys children"
    and present: "keys ! unat c \<noteq> 0"
    and thirteen: "numChildren hdr = 13"
    and fits: "length (partial hdr) = M"
  shows "\<exists>hdr' keys16 children16.
           removeChild48 M st n c =
             Inr \<lparr>nodes = (nodes st)[n := Node48 (hdr\<lparr>numChildren := 12\<rparr>) (keys[unat c := 0])
                                             (children[unat (keys ! unat c - 1) := None])]
                          @ [Node16 hdr' keys16 children16],
                  ref = Some (length (nodes st))\<rparr> \<and>
           partialLen hdr' = partialLen hdr \<and> numChildren hdr' = 12 \<and>
           take (min M (unat (partialLen hdr))) (partial hdr') =
             take (min M (unat (partialLen hdr))) (partial hdr) \<and>
           length (partial hdr') = M \<and>
           wf_small 16 hdr' keys16 children16 \<and>
           set children16 \<subseteq> insert None (set children) \<and>
           (\<forall>b. lookup (Node16 hdr' keys16 children16 :: 'v node) b =
                  lookup (Node48 (hdr\<lparr>numChildren := 12\<rparr>) (keys[unat c := 0])
                            (children[unat (keys ! unat c - 1) := None]) :: 'v node) b)"
proof -
  let ?k = "keys[unat c := 0]" and ?c = "children[unat (keys ! unat c - 1) := None]"
  let ?hdr0 = "hdr\<lparr>numChildren := 12\<rparr>"
  let ?n0 = "Node48 ?hdr0 ?k ?c :: 'v node"
  let ?new = "Node16 (newHeader M) (replicate 16 0) (replicate 16 None) :: 'v node"
  have dec: "numChildren hdr - 1 = 12" using thirteen by simp
  have wf0: "wf48 ?hdr0 ?k ?c" using wf48_remove(1) [OF wf present] dec by simp
  have inb: "\<not> length children \<le> unat (keys ! unat c - 1)"
    using wf48_slot(2) [OF wf unat_byte_less present] wf by (simp add: wf48_def)
  from copyHeader_new [of ?new M ?n0] fits
  obtain hdr' where h: "copyHeader M ?new ?n0 = Inr (setHeader ?new hdr')"
    "partialLen hdr' = partialLen hdr" "numChildren hdr' = 12"
    "take (min M (unat (partialLen hdr))) (partial hdr') =
             take (min M (unat (partialLen hdr))) (partial hdr)"
    "length (partial hdr') = M"
    by (auto simp: newHeader_def)
  have "numChildren hdr' = numChildren ?hdr0" using h(3) by simp
  from shrink48_node [OF wf0 _ this]
  obtain keys16 children16 where s:
    "removeChild48_shrink ?k ?c (replicate 16 0) (replicate 16 None) 0 0 = Inr (keys16, children16)"
    "wf_small 16 hdr' keys16 children16"
    "set children16 \<subseteq> insert None (set ?c)"
    "\<forall>b. lookup (Node16 hdr' keys16 children16 :: 'v node) b = lookup ?n0 b"
    by auto
  have sub: "set children16 \<subseteq> insert None (set children)"
    using s(3) set_update_subset_insert [of children "unat (keys ! unat c - 1)" None] by blast
  have "removeChild48 M st n c =
           Inr \<lparr>nodes = (nodes st)[n := ?n0] @ [Node16 hdr' keys16 children16],
                ref = Some (length (nodes st))\<rparr>"
    using d dec inb h(1) s(1)
    by (simp add: removeChild48_def allocNode_def Let_def put_def store_update_all nth_append
          list_update_append)
  with h(2-5) s(2,4) sub show ?thesis by blast
qed

subsection \<open>Demotion of a Node256\<close>

lemma shrink256_node:
  assumes wf: "wf256 hdr children"
    and le: "unat (numChildren hdr) \<le> 48"
    and nc: "numChildren hdr' = numChildren hdr"
  shows "\<exists>keys48 children48.
           removeChild256_shrink children (replicate 256 0) (replicate 48 None) 0 0 =
             Inr (keys48, children48) \<and>
           wf48 hdr' keys48 children48 \<and>
           set children48 \<subseteq> insert None (set children) \<and>
           (\<forall>b. lookup (Node48 hdr' keys48 children48 :: 'v node) b =
                  lookup (Node256 hdr children :: 'v node) b)"
proof -
  let ?nz = "\<lambda>k::byte. k \<noteq> 0" and ?nn = "\<lambda>p::ptr. p \<noteq> None"
  define J where "J = filter (\<lambda>j. children ! j \<noteq> None) [0..<256]"
  from wf have lc: "length children = 256"
    and cnt: "unat (numChildren hdr) = length (filter ?nn children)"
    and dc: "distinct (filter ?nn children)"
    by (simp_all add: wf256_def)
  have fc: "filter ?nn children = map (\<lambda>j. children ! j) J"
    using filter_indices [of ?nn children] lc by (simp add: J_def)
  have lJ: "length J = unat (numChildren hdr)" using cnt fc by simp
  have J: "j \<in> set J \<longleftrightarrow> j < 256 \<and> children ! j \<noteq> None" for j by (auto simp: J_def)
  have dJ: "distinct J" by (simp add: J_def)
  define children48 where "children48 = map (\<lambda>j. children ! j) J @ replicate (48 - length J) None"
  have p1: "(0::nat) \<le> 256" by simp
  have p2: "length (replicate 256 (0::byte)) = 256" by simp
  have p3: "0 + length (filter (\<lambda>j. children ! j \<noteq> None) [0..<256])
              \<le> length (replicate 48 (None::ptr))"
    using lJ le unfolding J_def by simp
  from removeChild256_shrink_char [OF p1 p2 p3]
  obtain keys48 where r:
      "removeChild256_shrink children (replicate 256 0) (replicate 48 None) 0 0 =
         Inr (keys48, take 0 (replicate 48 None) @ map (\<lambda>j. children ! j) J
                        @ drop (0 + length J) (replicate 48 None))"
      "length keys48 = 256"
      "\<forall>t<length J. keys48 ! (J ! t) = of_nat (0 + t + 1)"
      "\<forall>j<256. j \<notin> set J \<longrightarrow> keys48 ! j = replicate 256 0 ! j"
    unfolding J_def [symmetric] by blast
  have run: "removeChild256_shrink children (replicate 256 0) (replicate 48 None) 0 0 =
         Inr (keys48, children48)"
    unfolding r(1) children48_def by simp
  note lk = r(2)
  have hit: "\<forall>t<length J. keys48 ! (J ! t) = of_nat (t + 1)" using r(3) by simp
  have miss: "\<forall>j<256. j \<notin> set J \<longrightarrow> keys48 ! j = 0" using r(4) by simp
  have rank: "unat (keys48 ! (J ! t)) = t + 1" if "t < length J" for t
  proof -
    have "t + 1 < 256" using that lJ le by simp
    then have "unat (of_nat (t + 1) :: byte) = t + 1" by (rule unat_of_nat_byte)
    with hit that show ?thesis by simp
  qed
  have nzJ: "keys48 ! j \<noteq> 0 \<longleftrightarrow> j \<in> set J" if "j < 256" for j
  proof
    assume "keys48 ! j \<noteq> 0"
    with miss that show "j \<in> set J" by blast
  next
    assume "j \<in> set J"
    then obtain t where t: "t < length J" "J ! t = j" by (auto simp: in_set_conv_nth)
    from rank [OF t(1)] t(2) show "keys48 ! j \<noteq> 0" by auto
  qed
  have fk: "filter ?nz keys48 = map (\<lambda>j. keys48 ! j) J"
  proof -
    have "filter (\<lambda>j. keys48 ! j \<noteq> 0) [0..<256] = filter (\<lambda>j. children ! j \<noteq> None) [0..<256]"
    proof (rule filter_cong [OF refl])
      fix x assume "x \<in> set [0..<256]"
      then have x: "x < 256" by simp
      from nzJ [OF x] J [of x] x show "(keys48 ! x \<noteq> 0) = (children ! x \<noteq> None)" by blast
    qed
    then have "filter (\<lambda>j. keys48 ! j \<noteq> 0) [0..<256] = J" unfolding J_def .
    with filter_indices [of ?nz keys48] lk show ?thesis by simp
  qed
  have c1: "unat (numChildren hdr') = length (filter ?nz keys48)" using fk lJ nc by simp
  have nonnil: "None \<notin> set (map (\<lambda>j. children ! j) J)"
  proof
    assume "None \<in> set (map (\<lambda>j. children ! j) J)"
    then obtain j where "j \<in> set J" "children ! j = None" by (auto simp: image_iff)
    with J [of j] show False by simp
  qed
  have fc48: "filter ?nn children48 = map (\<lambda>j. children ! j) J"
    unfolding children48_def using filter_nonnil_id [OF nonnil] by (simp del: not_None_eq)
  have c2: "unat (numChildren hdr') = length (filter ?nn children48)" using fc48 lJ nc by simp
  have d1: "distinct (filter ?nz keys48)"
  proof (rule distinct_filter_nthI)
    fix i j assume i: "i < length keys48" and j: "j < length keys48"
      and nz: "keys48 ! i \<noteq> 0" and e: "keys48 ! i = keys48 ! j"
    from i j lk have ij: "i < 256" "j < 256" by simp_all
    from nz e have nz': "keys48 ! j \<noteq> 0" by simp
    from nzJ [OF ij(1)] nzJ [OF ij(2)] nz nz' have "i \<in> set J" "j \<in> set J" by blast+
    then obtain s t where s: "s < length J" "J ! s = i" and t: "t < length J" "J ! t = j"
      by (auto simp: in_set_conv_nth)
    from rank [OF s(1)] rank [OF t(1)] s(2) t(2) e have "s = t" by simp
    with s t show "i = j" by simp
  qed
  have d2: "distinct (filter ?nn children48)"
    unfolding fc48 using dc fc by simp
  have cons: "\<forall>k \<in> set keys48. k \<noteq> 0 \<longrightarrow> unat k \<le> 48 \<and> children48 ! (unat k - 1) \<noteq> None"
  proof (intro ballI impI)
    fix k assume "k \<in> set keys48" "k \<noteq> 0"
    then obtain j where j: "j < 256" "keys48 ! j = k" using lk by (auto simp: in_set_conv_nth)
    with \<open>k \<noteq> 0\<close> nzJ [of j] have "j \<in> set J" by simp
    then obtain t where t: "t < length J" "J ! t = j" by (auto simp: in_set_conv_nth)
    from rank [OF t(1)] t(2) j(2) have u: "unat k = t + 1" by simp
    have "children48 ! t = children ! j" using t by (simp add: children48_def nth_append)
    moreover have "children ! j \<noteq> None" using \<open>j \<in> set J\<close> J by simp
    ultimately show "unat k \<le> 48 \<and> children48 ! (unat k - 1) \<noteq> None"
      using u t(1) lJ le by simp
  qed
  have l48: "length children48 = 48" using lJ le by (simp add: children48_def)
  have wf': "wf48 hdr' keys48 children48"
    unfolding wf48_def using lk l48 c1 c2 cons d1 d2 by simp
  have sub: "set children48 \<subseteq> insert None (set children)"
  proof -
    have "children ! j \<in> set children" if "j \<in> set J" for j using that J lc by simp
    then show ?thesis by (auto simp: children48_def)
  qed
  have look: "lookup (Node48 hdr' keys48 children48 :: 'v node) b =
              lookup (Node256 hdr children :: 'v node) b" for b
  proof (cases "children ! unat b = None")
    case True
    then have "unat b \<notin> set J" using J by simp
    with miss unat_byte_less [of b] have "keys48 ! unat b = 0" by blast
    with True show ?thesis by (simp add: lookup_wf48 [OF wf'] lookup_Node256)
  next
    case False
    then have m: "unat b \<in> set J" using J unat_byte_less [of b] by simp
    then obtain t where t: "t < length J" "J ! t = unat b" by (auto simp: in_set_conv_nth)
    have nz: "keys48 ! unat b \<noteq> 0" using nzJ [OF unat_byte_less] m by simp
    have "unat (keys48 ! unat b - 1) = t"
      using unat_dec8 [OF nz] rank [OF t(1)] t(2) by simp
    moreover have "children48 ! t = children ! unat b"
      using t by (simp add: children48_def nth_append)
    ultimately show ?thesis using nz by (simp add: lookup_wf48 [OF wf'] lookup_Node256)
  qed
  from run wf' sub look show ?thesis by blast
qed

lemma removeChild256_demote:
  fixes st :: "'v store"
  assumes d: "deref (nodes st) n = Some (Node256 hdr children)"
    and wf: "wf256 hdr children"
    and present: "children ! unat c \<noteq> None"
    and thirtyeight: "numChildren hdr = 38"
    and fits: "length (partial hdr) = M"
  shows "\<exists>hdr' keys48 children48.
           removeChild256 M st n c =
             Inr \<lparr>nodes = (nodes st)[n := Node256 (hdr\<lparr>numChildren := 37\<rparr>)
                                             (children[unat c := None])]
                          @ [Node48 hdr' keys48 children48],
                  ref = Some (length (nodes st))\<rparr> \<and>
           partialLen hdr' = partialLen hdr \<and> numChildren hdr' = 37 \<and>
           take (min M (unat (partialLen hdr))) (partial hdr') =
             take (min M (unat (partialLen hdr))) (partial hdr) \<and>
           length (partial hdr') = M \<and>
           wf48 hdr' keys48 children48 \<and>
           set children48 \<subseteq> insert None (set children) \<and>
           (\<forall>b. lookup (Node48 hdr' keys48 children48 :: 'v node) b =
                  lookup (Node256 (hdr\<lparr>numChildren := 37\<rparr>) (children[unat c := None]) :: 'v node) b)"
proof -
  let ?c = "children[unat c := None]"
  let ?hdr0 = "hdr\<lparr>numChildren := 37\<rparr>"
  let ?n0 = "Node256 ?hdr0 ?c :: 'v node"
  let ?new = "Node48 (newHeader M) (replicate 256 0) (replicate 48 None) :: 'v node"
  have dec: "numChildren hdr - 1 = 37" using thirtyeight by simp
  have wf0: "wf256 ?hdr0 ?c" using wf256_remove(1) [OF wf present] dec by simp
  from copyHeader_new [of ?new M ?n0] fits
  obtain hdr' where h: "copyHeader M ?new ?n0 = Inr (setHeader ?new hdr')"
    "partialLen hdr' = partialLen hdr" "numChildren hdr' = 37"
    "take (min M (unat (partialLen hdr))) (partial hdr') =
             take (min M (unat (partialLen hdr))) (partial hdr)"
    "length (partial hdr') = M"
    by (auto simp: newHeader_def)
  have "numChildren hdr' = numChildren ?hdr0" using h(3) by simp
  from shrink256_node [OF wf0 _ this]
  obtain keys48 children48 where s:
    "removeChild256_shrink ?c (replicate 256 0) (replicate 48 None) 0 0 = Inr (keys48, children48)"
    "wf48 hdr' keys48 children48"
    "set children48 \<subseteq> insert None (set ?c)"
    "\<forall>b. lookup (Node48 hdr' keys48 children48 :: 'v node) b = lookup ?n0 b"
    by auto
  have sub: "set children48 \<subseteq> insert None (set children)"
    using s(3) set_update_subset_insert [of children "unat c" None] by blast
  have "removeChild256 M st n c =
           Inr \<lparr>nodes = (nodes st)[n := ?n0] @ [Node48 hdr' keys48 children48],
                ref = Some (length (nodes st))\<rparr>"
    using d dec h(1) s(1)
    by (simp add: removeChild256_def allocNode_def Let_def put_def store_update_all nth_append
          list_update_append)
  with h(2-5) s(2,4) sub show ?thesis by blast
qed

subsection \<open>The complete effect of a removal on Node16, Node48 and Node256\<close>

lemma removed_via:
  assumes "removed M n c n0" "same_prefix M n0 n'" "getNumChildren n' = getNumChildren n0"
    and "\<forall>b. lookup n' b = lookup n0 b"
  shows "removed M n c n'"
  using assms by (simp add: removed_def same_prefix_def)

lemma removeChild16_effect:
  fixes st :: "'v store"
  assumes d: "deref (nodes st) n = Some (Node16 hdr keys children)"
    and wf: "wf_small 16 hdr keys children"
    and fits: "length (partial hdr) = M"
    and present: "lookup (Node16 hdr keys children :: 'v node) c = Some a"
  shows "\<exists>n0 n' :: 'v node.
           wf_node n0 \<and> buffer_ok M n0 \<and> set (getChildren n0) \<subseteq> insert None (set children) \<and>
           wf_node n' \<and> removed M (Node16 hdr keys children) c n' \<and> buffer_ok M n' \<and>
           \<not> isLeaf n' \<and> set (getChildren n') \<subseteq> insert None (set children) \<and>
           (if numChildren hdr - 1 = 3
            then removeChild16 M st n (Some a) =
                   Inr \<lparr>nodes = (nodes st)[n := n0] @ [n'], ref = Some (length (nodes st))\<rparr> \<and>
                 getArtNodeType n' = node4
            else removeChild16 M st n (Some a) = Inr (put st n n') \<and>
                 getArtNodeType n' = node16)"
proof -
  from present have "assoc (take (unat (numChildren hdr)) keys)
                       (take (unat (numChildren hdr)) children) c = Some a"
    unfolding lookup_small16 [OF wf] .
  from lookup_small_index [OF wf this]
  obtain i where i: "i < unat (numChildren hdr)" "keys ! i = c" "children ! i = Some a" by blast
  let ?hdr0 = "hdr\<lparr>numChildren := numChildren hdr - 1\<rparr>"
  let ?k = "shift_left keys i" and ?c = "shift_left children i"
  let ?n0 = "Node16 ?hdr0 ?k ?c :: 'v node"
  note r = small_remove [OF wf i(1)]
  have rem0: "removed M (Node16 hdr keys children) c ?n0"
    using small_removed16 [OF wf i(1), of M] i(2) by simp
  have sub0: "set ?c \<subseteq> insert None (set children)" using r(4) by blast
  show ?thesis
  proof (cases "numChildren hdr - 1 = 3")
    case False
    then have "numChildren hdr \<noteq> 4" by (simp add: word8_dec_eq)
    from removeChild16_inplace [OF d wf i(1) this, of M] i(3)
    have "removeChild16 M st n (Some a) = Inr (put st n ?n0)" by simp
    with False r(2) rem0 sub0 fits show ?thesis
      unfolding if_not_P [OF False]
      by (intro exI [of _ ?n0] conjI) (simp_all add: buffer_ok_def)
  next
    case True
    then have four: "numChildren hdr = 4" by (simp add: word8_dec_eq)
    from removeChild16_demote [OF d wf i(1) four fits] i(3)
    obtain hdr' where h: "removeChild16 M st n (Some a) =
           Inr \<lparr>nodes = (nodes st)[n := Node16 (hdr\<lparr>numChildren := 3\<rparr>) ?k ?c]
                        @ [Node4 hdr' (take 4 ?k) (take 4 ?c)],
                ref = Some (length (nodes st))\<rparr>"
      "partialLen hdr' = partialLen hdr" "numChildren hdr' = 3"
      "take (min M (unat (partialLen hdr))) (partial hdr') =
             take (min M (unat (partialLen hdr))) (partial hdr)"
      "length (partial hdr') = M" by auto
    let ?n' = "Node4 hdr' (take 4 ?k) (take 4 ?c) :: 'v node"
    have e0: "hdr\<lparr>numChildren := 3\<rparr> = ?hdr0" using True by simp
    have le: "unat (numChildren ?hdr0) \<le> 4" using True by simp
    have nc: "numChildren hdr' = numChildren ?hdr0" using h(3) True by simp
    note t = small_truncate [OF r(2) le nc]
    have sp: "same_prefix M ?n0 ?n'" using h(2,4) by (simp add: same_prefix_def)
    have nc': "getNumChildren ?n' = getNumChildren ?n0" using nc by simp
    have l1: "\<forall>b. lookup ?n' b = lookup ?n0 b" by (intro allI) (rule t(2))
    have "removed M (Node16 hdr keys children) c ?n'"
      by (rule removed_via [OF rem0 sp nc' l1])
    moreover have "set (take 4 ?c) \<subseteq> insert None (set children)"
      using sub0 by (auto dest: in_set_takeD)
    ultimately show ?thesis
      using h(1,5) t(1) r(2) sub0 fits unfolding e0 if_P [OF True]
      by (intro exI [of _ ?n0] exI [of _ ?n'] conjI) (simp_all add: buffer_ok_def)
  qed
qed


lemma removeChild48_effect:
  fixes st :: "'v store"
  assumes d: "deref (nodes st) n = Some (Node48 hdr keys children)"
    and wf: "wf48 hdr keys children"
    and fits: "length (partial hdr) = M"
    and present: "lookup (Node48 hdr keys children :: 'v node) c \<noteq> None"
  shows "\<exists>n0 n' :: 'v node.
           wf_node n0 \<and> buffer_ok M n0 \<and> set (getChildren n0) \<subseteq> insert None (set children) \<and>
           wf_node n' \<and> removed M (Node48 hdr keys children) c n' \<and> buffer_ok M n' \<and>
           \<not> isLeaf n' \<and> set (getChildren n') \<subseteq> insert None (set children) \<and>
           (if numChildren hdr - 1 = 12
            then removeChild48 M st n c =
                   Inr \<lparr>nodes = (nodes st)[n := n0] @ [n'], ref = Some (length (nodes st))\<rparr> \<and>
                 getArtNodeType n' = node16
            else removeChild48 M st n c = Inr (put st n n') \<and>
                 getArtNodeType n' = node48)"
proof -
  have nz: "keys ! unat c \<noteq> 0"
  proof
    assume "keys ! unat c = 0"
    then have "lookup (Node48 hdr keys children :: 'v node) c = None"
      by (rule lookup_wf48_None [OF wf, THEN iffD2])
    with present show False by simp
  qed
  let ?hdr0 = "hdr\<lparr>numChildren := numChildren hdr - 1\<rparr>"
  let ?k = "keys[unat c := 0]" and ?c = "children[unat (keys ! unat c - 1) := None]"
  let ?n0 = "Node48 ?hdr0 ?k ?c :: 'v node"
  note r = wf48_remove [OF wf nz]
  have lk: "\<forall>b. lookup ?n0 b = (if b = c then None else lookup (Node48 hdr keys children :: 'v node) b)"
    by (intro allI) (rule r(2))
  have rem0: "removed M (Node48 hdr keys children) c ?n0"
    using lk by (simp add: removed_def same_prefix_def)
  have sub0: "set ?c \<subseteq> insert None (set children)" by (rule set_update_subset_insert)
  show ?thesis
  proof (cases "numChildren hdr - 1 = 12")
    case False
    then have "numChildren hdr \<noteq> 13" by (simp add: word8_dec_eq)
    from removeChild48_inplace [OF d wf nz this, of M]
    have "removeChild48 M st n c = Inr (put st n ?n0)" .
    with False r(1) rem0 sub0 fits show ?thesis
      unfolding if_not_P [OF False]
      by (intro exI [of _ ?n0] conjI) (simp_all add: buffer_ok_def)
  next
    case True
    then have thirteen: "numChildren hdr = 13" by (simp add: word8_dec_eq)
    have e0: "hdr\<lparr>numChildren := 12\<rparr> = ?hdr0" using True by simp
    from removeChild48_demote [OF d wf nz thirteen fits]
    obtain hdr' keys16 children16 where h: "removeChild48 M st n c =
             Inr \<lparr>nodes = (nodes st)[n := ?n0] @ [Node16 hdr' keys16 children16],
                  ref = Some (length (nodes st))\<rparr>"
      "partialLen hdr' = partialLen hdr" "numChildren hdr' = 12"
      "take (min M (unat (partialLen hdr))) (partial hdr') =
             take (min M (unat (partialLen hdr))) (partial hdr)"
      "length (partial hdr') = M"
      "wf_small 16 hdr' keys16 children16"
      "set children16 \<subseteq> insert None (set children)"
      "\<forall>b. lookup (Node16 hdr' keys16 children16 :: 'v node) b = lookup ?n0 b"
      unfolding e0 by blast
    let ?n' = "Node16 hdr' keys16 children16 :: 'v node"
    have sp: "same_prefix M ?n0 ?n'" using h(2,4) by (simp add: same_prefix_def)
    have nc': "getNumChildren ?n' = getNumChildren ?n0" using h(3) True by simp
    have "removed M (Node48 hdr keys children) c ?n'"
      by (rule removed_via [OF rem0 sp nc' h(8)])
    then show ?thesis
      using h(1,5,6,7) r(1) sub0 fits unfolding if_P [OF True]
      by (intro exI [of _ ?n0] exI [of _ ?n'] conjI) (simp_all add: buffer_ok_def)
  qed
qed

lemma removeChild256_effect:
  fixes st :: "'v store"
  assumes d: "deref (nodes st) n = Some (Node256 hdr children)"
    and wf: "wf256 hdr children"
    and fits: "length (partial hdr) = M"
    and present: "lookup (Node256 hdr children :: 'v node) c \<noteq> None"
  shows "\<exists>n0 n' :: 'v node.
           wf_node n0 \<and> buffer_ok M n0 \<and> set (getChildren n0) \<subseteq> insert None (set children) \<and>
           wf_node n' \<and> removed M (Node256 hdr children) c n' \<and> buffer_ok M n' \<and>
           \<not> isLeaf n' \<and> set (getChildren n') \<subseteq> insert None (set children) \<and>
           (if numChildren hdr - 1 = 37
            then removeChild256 M st n c =
                   Inr \<lparr>nodes = (nodes st)[n := n0] @ [n'], ref = Some (length (nodes st))\<rparr> \<and>
                 getArtNodeType n' = node48
            else removeChild256 M st n c = Inr (put st n n') \<and>
                 getArtNodeType n' = node256)"
proof -
  have nn: "children ! unat c \<noteq> None" using present by (simp add: lookup_Node256)
  let ?hdr0 = "hdr\<lparr>numChildren := numChildren hdr - 1\<rparr>"
  let ?c = "children[unat c := None]"
  let ?n0 = "Node256 ?hdr0 ?c :: 'v node"
  note r = wf256_remove [OF wf nn]
  have lk: "\<forall>b. lookup ?n0 b = (if b = c then None else lookup (Node256 hdr children :: 'v node) b)"
    by (intro allI) (rule r(2))
  have rem0: "removed M (Node256 hdr children) c ?n0"
    using lk by (simp add: removed_def same_prefix_def)
  have sub0: "set ?c \<subseteq> insert None (set children)" by (rule set_update_subset_insert)
  show ?thesis
  proof (cases "numChildren hdr - 1 = 37")
    case False
    then have "numChildren hdr \<noteq> 38" by (simp add: word8_dec_eq)
    from removeChild256_inplace [OF d this, of M c]
    have "removeChild256 M st n c = Inr (put st n ?n0)" .
    with False r(1) rem0 sub0 fits show ?thesis
      unfolding if_not_P [OF False]
      by (intro exI [of _ ?n0] conjI) (simp_all add: buffer_ok_def)
  next
    case True
    then have thirtyeight: "numChildren hdr = 38" by (simp add: word8_dec_eq)
    have e0: "hdr\<lparr>numChildren := 37\<rparr> = ?hdr0" using True by simp
    from removeChild256_demote [OF d wf nn thirtyeight fits]
    obtain hdr' keys48 children48 where h: "removeChild256 M st n c =
             Inr \<lparr>nodes = (nodes st)[n := ?n0] @ [Node48 hdr' keys48 children48],
                  ref = Some (length (nodes st))\<rparr>"
      "partialLen hdr' = partialLen hdr" "numChildren hdr' = 37"
      "take (min M (unat (partialLen hdr))) (partial hdr') =
             take (min M (unat (partialLen hdr))) (partial hdr)"
      "length (partial hdr') = M"
      "wf48 hdr' keys48 children48"
      "set children48 \<subseteq> insert None (set children)"
      "\<forall>b. lookup (Node48 hdr' keys48 children48 :: 'v node) b = lookup ?n0 b"
      unfolding e0 by blast
    let ?n' = "Node48 hdr' keys48 children48 :: 'v node"
    have sp: "same_prefix M ?n0 ?n'" using h(2,4) by (simp add: same_prefix_def)
    have nc': "getNumChildren ?n' = getNumChildren ?n0" using h(3) True by simp
    have "removed M (Node256 hdr children) c ?n'"
      by (rule removed_via [OF rem0 sp nc' h(8)])
    then show ?thesis
      using h(1,5,6,7) r(1) sub0 fits unfolding if_P [OF True]
      by (intro exI [of _ ?n0] exI [of _ ?n'] conjI) (simp_all add: buffer_ok_def)
  qed
qed

section \<open>Single-child collapse\<close>

text \<open>
  Claim C1. Let a well-formed Node4 at address \<open>n\<close> have two children, the one to remove
  in slot \<open>i\<close> and the survivor, an internal node \<open>child\<close> at address \<open>ca\<close>, in the
  other slot; both prefix buffers hold \<open>M\<close> bytes. Let \<open>cat\<close> be the parent's explicit
  prefix bytes, then the survivor's key byte, then the child's explicit prefix bytes,
  truncated to \<open>M\<close> bytes. Then \<open>removeChild4\<close> succeeds, the caller-held reference is
  set to the child, the child's buffer starts with \<open>cat\<close> (its bytes behind \<open>cat\<close> stay),
  and its \<open>partialLen\<close> is the sum (in 32 bits) of its former \<open>partialLen\<close>, the parent's
  \<open>partialLen\<close> and 1; keys, children and child count of the child are untouched.
\<close>

theorem removeChild4_collapse:
  fixes st :: "'v store"
  assumes d: "deref (nodes st) n = Some (Node4 hdr keys children)"
    and wf: "wf_small 4 hdr keys children"
    and two: "numChildren hdr = 2"
    and i: "i < 2"
    and s: "children ! (1 - i) = Some ca"
    and dc: "deref (nodes st) ca = Some child"
    and ne: "ca \<noteq> n"
    and internal: "\<not> isLeaf child"
    and ln: "length (partial hdr) = M" and lc: "length (getPartial child) = M"
    and cat: "cat = take M (take (min M (unat (partialLen hdr))) (partial hdr)
                            @ keys ! (1 - i)
                            # take (min M (unat (getPartialLen child))) (getPartial child))"
  shows "\<exists>h'. removeChild4 M st n (children ! i) = Inr \<lparr>nodes = h', ref = Some ca\<rparr> \<and>
           length h' = length (nodes st) \<and>
           h' ! ca = setPartialLen
                       (setPartial child (cat @ drop (length cat) (getPartial child)))
                       (getPartialLen child + partialLen hdr + 1) \<and>
           getPartial (h' ! ca) = cat @ drop (length cat) (getPartial child) \<and>
           getPartialLen (h' ! ca) = getPartialLen child + partialLen hdr + 1 \<and>
           length cat = min M (unat (partialLen hdr) + 1 + unat (getPartialLen child))"
proof -
  from removeChild4_collapse_internal [OF d wf two i s dc ne internal ln lc cat]
  obtain p where r: "removeChild4 M st n (children ! i) =
           Inr \<lparr>nodes = (nodes st)
                   [n := Node4 (hdr\<lparr>numChildren := 1, partial := p\<rparr>)
                           (shift_left keys i) (shift_left children i),
                    ca := setPartialLen
                            (setPartial child (cat @ drop (length cat) (getPartial child)))
                            (getPartialLen child + partialLen hdr + 1)],
                ref = Some ca\<rparr>" by blast
  let ?c' = "setPartialLen (setPartial child (cat @ drop (length cat) (getPartial child)))
               (getPartialLen child + partialLen hdr + 1)"
  from dc have b: "ca < length (nodes st)" by (auto simp: deref_def split: if_splits)
  have g1: "getPartial ?c' = cat @ drop (length cat) (getPartial child)"
    using internal
    by (simp add: getPartial_def setPartialLen_def setPartial_def getHeader_setHeader
          isLeaf_setHeader)
  have g2: "getPartialLen ?c' = getPartialLen child + partialLen hdr + 1"
    using internal
    by (simp add: getPartialLen_def setPartialLen_def setPartial_def getHeader_setHeader
          isLeaf_setHeader)
  have lcat: "length cat = min M (unat (partialLen hdr) + 1 + unat (getPartialLen child))"
    unfolding cat using ln lc by (auto simp: min_def)
  show ?thesis
    unfolding r using b g1 g2 lcat
    by (intro exI [of _ "(nodes st)
                   [n := Node4 (hdr\<lparr>numChildren := 1, partial := p\<rparr>)
                           (shift_left keys i) (shift_left children i), ca := ?c']"]) simp
qed

theorem removeChild4_collapse_witness:
  "\<exists>h'. removeChild4 10 \<lparr>nodes = collapse_heap, ref = Some 0\<rparr> 0 (Some 1) =
           Inr \<lparr>nodes = h', ref = Some 2\<rparr> \<and>
         getPartial (h' ! 2) = [97, 98, 2, 99, 100, 0, 0, 0, 0, 0] \<and>
         getPartialLen (h' ! 2) = 5"
proof -
  let ?st = "\<lparr>nodes = collapse_heap, ref = Some 0\<rparr>"
  let ?hdr = "\<lparr>partialLen = 2, numChildren = 2, partial = [97, 98, 0, 0, 0, 0, 0, 0, 0, 0]\<rparr>"
  let ?keys = "[1, 2, 0, 0] :: byte list"
  let ?children = "[Some 1, Some 2, None, None] :: ptr list"
  let ?child = "Node4 \<lparr>partialLen = 2, numChildren = 2, partial = [99, 100, 0, 0, 0, 0, 0, 0, 0, 0]\<rparr>
        [1, 2, 0, 0] [Some 3, Some 4, None, None] :: nat node"
  have h1: "deref (nodes ?st) 0 = Some (Node4 ?hdr ?keys ?children)"
    by (simp add: collapse_heap_def deref_def)
  have h2: "wf_small 4 ?hdr ?keys ?children" by (simp add: wf_small_def)
  have h3: "numChildren ?hdr = 2" by simp
  have h4: "(0::nat) < 2" by simp
  have h5: "?children ! (1 - 0) = Some 2" by simp
  have h6: "deref (nodes ?st) 2 = Some ?child" by (simp add: collapse_heap_def deref_def)
  have h7: "(2::nat) \<noteq> 0" by simp
  have h8: "\<not> isLeaf ?child" by simp
  have h9: "length (partial ?hdr) = 10" by simp
  have h10: "length (getPartial ?child) = 10" by simp
  have h11: "[97, 98, 2, 99, 100] =
               take 10 (take (min 10 (unat (partialLen ?hdr))) (partial ?hdr)
                            @ ?keys ! (1 - 0)
                            # take (min 10 (unat (getPartialLen ?child))) (getPartial ?child))"
    by simp
  from removeChild4_collapse [OF h1 h2 h3 h4 h5 h6 h7 h8 h9 h10 h11]
  show ?thesis by simp blast
qed

section \<open>Demotion on removal\<close>

text \<open>
  Claim C2. Let \<open>node\<close> be a well-formed Node16, Node48 or Node256 at address \<open>n\<close>
  with a prefix buffer of \<open>M\<close> bytes, and \<open>c\<close> a byte it has the child \<open>a\<close> for. Then
  \<open>removeChild\<close> succeeds with a well-formed node \<open>n'\<close> (a Node16 has its first
  \<open>numChildren\<close> keys strictly ascending) that has one child less, the same logical
  prefix length and explicit prefix bytes, and the associations of \<open>node\<close> without the
  one for \<open>c\<close>. When the decremented count is 3 (Node16), 12 (Node48) or 37 (Node256),
  \<open>n'\<close> is of the next smaller variant, freshly allocated at the end of the heap, and the
  caller-held reference is set to it (the old node stays at \<open>n\<close>, shrunk in place to
  \<open>n0\<close>); in every other case \<open>n'\<close> is of the same variant and written in place of
  \<open>node\<close>, the reference as it was.
\<close>

theorem removeChild_demotes:
  fixes st :: "'v store"
  assumes d: "deref (nodes st) n = Some node"
    and large: "getArtNodeType node \<in> {node16, node48, node256}"
    and wf: "wf_node node"
    and buf: "buffer_ok M node"
    and present: "lookup node c = Some a"
  shows "\<exists>n0 n'. wf_node n' \<and> removed M node c n' \<and>
           (if getNumChildren node - 1 =
                 (case getArtNodeType node of node16 \<Rightarrow> 3 | node48 \<Rightarrow> 12 | _ \<Rightarrow> 37)
            then removeChild M st n c (Some a) =
                   Inr \<lparr>nodes = (nodes st)[n := n0] @ [n'], ref = Some (length (nodes st))\<rparr> \<and>
                 getArtNodeType n' = smaller (getArtNodeType node)
            else removeChild M st n c (Some a) = Inr (put st n n') \<and>
                 getArtNodeType n' = getArtNodeType node)"
proof (cases node)
  case (NodeLeaf k kl v)
  with large show ?thesis by simp
next
  case (Node4 hdr keys children)
  with large show ?thesis by simp
next
  case (Node16 hdr keys children)
  have run: "removeChild M st n c (Some a) = removeChild16 M st n (Some a)"
    using d Node16 by (simp add: removeChild_def)
  from removeChild16_effect [of st n hdr keys children M c a] d wf buf present Node16
  show ?thesis unfolding run Node16
    by (simp add: buffer_ok_def split del: if_split cong: if_cong) blast
next
  case (Node48 hdr keys children)
  have run: "removeChild M st n c (Some a) = removeChild48 M st n c"
    using d Node48 by (simp add: removeChild_def)
  from removeChild48_effect [of st n hdr keys children M c] d wf buf present Node48
  show ?thesis unfolding run Node48
    by (simp add: buffer_ok_def split del: if_split cong: if_cong) blast
next
  case (Node256 hdr children)
  have run: "removeChild M st n c (Some a) = removeChild256 M st n c"
    using d Node256 by (simp add: removeChild_def)
  from removeChild256_effect [of st n hdr children M c] d wf buf present Node256
  show ?thesis unfolding run Node256
    by (simp add: buffer_ok_def split del: if_split cong: if_cong) blast
qed

theorem removeChild_demotes_witness:
  "\<exists>n0 n'. wf_node n' \<and> removed 10 (demote_heap ! 0) 2 n' \<and>
     removeChild 10 \<lparr>nodes = demote_heap, ref = Some 0\<rparr> 0 2 (Some 2) =
       Inr \<lparr>nodes = demote_heap[0 := n0] @ [n'], ref = Some 5\<rparr> \<and>
     getArtNodeType n' = node4"
proof -
  let ?st = "\<lparr>nodes = demote_heap, ref = Some 0\<rparr>"
  have h1: "deref (nodes ?st) 0 = Some (demote_heap ! 0)" by (simp add: demote_heap_def deref_def)
  have h2: "getArtNodeType (demote_heap ! 0) \<in> {node16, node48, node256}"
    by (simp add: demote_heap_def)
  have h3: "wf_node (demote_heap ! 0)" by (simp add: demote_heap_def wf_small_def)
  have h4: "buffer_ok 10 (demote_heap ! 0)" by (simp add: demote_heap_def buffer_ok_def)
  have h5: "lookup (demote_heap ! 0) 2 = Some 2" by code_simp
  have at: "getNumChildren (demote_heap ! 0) - 1 =
              (case getArtNodeType (demote_heap ! 0) of node16 \<Rightarrow> 3 | node48 \<Rightarrow> 12 | _ \<Rightarrow> 37)"
    by (simp add: demote_heap_def)
  have len: "length (nodes ?st) = 5" by (simp add: demote_heap_def)
  have ty: "smaller (getArtNodeType (demote_heap ! 0)) = node4" by (simp add: demote_heap_def)
  from removeChild_demotes [OF h1 h2 h3 h4 h5]
  show ?thesis unfolding if_P [OF at] len ty by simp
qed

end
